theory Spec2Isabelle
  imports Main
begin

section \<open>Strings, file names and paths\<close>

text \<open>
  File names are ASCII strings. The character classes of the regular expressions in the
  source (\<^verbatim>\<open>\d\<close>, \<^verbatim>\<open>[a-zA-Z]\<close>) and the case conversions
  \<^verbatim>\<open>str.lower\<close> and \<^verbatim>\<open>str.upper\<close> are their ASCII versions. The audio duration
  parser is the exception: its names are lists of code points (see there).
\<close>

definition is_digit :: "char \<Rightarrow> bool" where
  "is_digit c = (c \<in> set ''0123456789'')"

definition upper_letters :: string where
  "upper_letters = ''ABCDEFGHIJKLMNOPQRSTUVWXYZ''"

definition lower_letters :: string where
  "lower_letters = ''abcdefghijklmnopqrstuvwxyz''"

definition is_alpha :: "char \<Rightarrow> bool" where
  "is_alpha c = (c \<in> set lower_letters \<or> c \<in> set upper_letters)"

definition to_lower :: "char \<Rightarrow> char" where
  "to_lower c = (case map_of (zip upper_letters lower_letters) c of Some l \<Rightarrow> l | None \<Rightarrow> c)"

definition to_upper :: "char \<Rightarrow> char" where
  "to_upper c = (case map_of (zip lower_letters upper_letters) c of Some u \<Rightarrow> u | None \<Rightarrow> c)"

definition lower :: "string \<Rightarrow> string" where
  "lower s = map to_lower s"

definition upper :: "string \<Rightarrow> string" where
  "upper s = map to_upper s"

text \<open>\<^verbatim>\<open>str(n)\<close> for a non-negative integer: its decimal digits.\<close>

definition digit_char :: "nat \<Rightarrow> char" where
  "digit_char d = ''0123456789'' ! d"

fun str_nat :: "nat \<Rightarrow> string" where
  "str_nat n = (if n < 10 then [digit_char n] else str_nat (n div 10) @ [digit_char (n mod 10)])"

declare str_nat.simps [simp del]

definition str_int :: "int \<Rightarrow> string" where
  "str_int i = (if i < 0 then CHR ''-'' # str_nat (nat (- i)) else str_nat (nat i))"

text \<open>
  A path is the list of its components; the empty list is the anchor (the root, or the
  current directory of a relative path), whose parent is itself and whose name is empty,
  as \<^verbatim>\<open>pathlib\<close> has it. Joining with an empty component changes nothing.
\<close>

type_synonym path = "string list"

definition path_parent :: "path \<Rightarrow> path" where
  "path_parent p = butlast p"

definition path_name :: "path \<Rightarrow> string" where
  "path_name p = (if p = [] then [] else last p)"

definition joinp :: "path \<Rightarrow> string \<Rightarrow> path" where
  "joinp p c = (if c = [] then p else p @ [c])"

text \<open>
  \<^verbatim>\<open>stem\<close> and \<^verbatim>\<open>suffix\<close> of a name: with \<^verbatim>\<open>i = name.rfind('.')\<close>, the
  name is split at \<open>i\<close> when \<^verbatim>\<open>0 < i < len(name) - 1\<close>, and has no suffix otherwise.
\<close>

definition rfind_dot :: "string \<Rightarrow> nat option" where
  "rfind_dot name =
     (if CHR ''.'' \<in> set name
      then Some (length name - 1 - length (takeWhile (\<lambda>c. c \<noteq> CHR ''.'') (rev name)))
      else None)"

definition name_stem :: "string \<Rightarrow> string" where
  "name_stem name =
     (case rfind_dot name of
        None \<Rightarrow> name
      | Some i \<Rightarrow> if 0 < i \<and> i < length name - 1 then take i name else name)"

definition name_suffix :: "string \<Rightarrow> string" where
  "name_suffix name =
     (case rfind_dot name of
        None \<Rightarrow> []
      | Some i \<Rightarrow> if 0 < i \<and> i < length name - 1 then drop i name else [])"

section \<open>The filename parser\<close>

text \<open>
  \<^verbatim>\<open>re.search\<close> tries the start positions from left to right and returns the first
  match; the matcher argument is the pattern matched at the start of its input, and yields
  the group the caller reads.
\<close>

fun re_search :: "('c list \<Rightarrow> 'a option) \<Rightarrow> 'c list \<Rightarrow> 'a option" where
  "re_search m [] = m []"
| "re_search m (c # cs) = (case m (c # cs) of Some g \<Rightarrow> Some g | None \<Rightarrow> re_search m cs)"

text \<open>A literal: the rest of the input after it.\<close>

definition lit :: "string \<Rightarrow> string \<Rightarrow> string option" where
  "lit p s = (if take (length p) s = p then Some (drop (length p) s) else None)"

text \<open>
  \<^verbatim>\<open>_(\d+s)_([a-zA-Z]{2,})_(\d+x\d+)\<close> of \<^verbatim>\<open>QuickBatch.py\<close>, yielding group 2.
  Every repetition is of a character class and is followed by a character outside the
  class (or, for the last one, by nothing), so the greedy run is the only candidate: a
  shorter run is followed by a character of the class, which the next literal rejects.
\<close>

definition match_format :: "string \<Rightarrow> string option" where
  "match_format s =
     (case lit ''_'' s of None \<Rightarrow> None | Some r1 \<Rightarrow>
      if takeWhile is_digit r1 = [] then None else
      case lit ''s_'' (dropWhile is_digit r1) of None \<Rightarrow> None | Some r2 \<Rightarrow>
      if length (takeWhile is_alpha r2) < 2 then None else
      case lit ''_'' (dropWhile is_alpha r2) of None \<Rightarrow> None | Some r3 \<Rightarrow>
      if takeWhile is_digit r3 = [] then None else
      case lit ''x'' (dropWhile is_digit r3) of None \<Rightarrow> None | Some r4 \<Rightarrow>
      if takeWhile is_digit r4 = [] then None else Some (takeWhile is_alpha r2))"

text \<open>
  \<^verbatim>\<open>_(\d+s)_([a-zA-Z]{2})_(\d+x\d+)$\<close> of \<^verbatim>\<open>video_renamer.py\<close>, yielding
  group 2; \<^verbatim>\<open>$\<close> holds at the end of the string and before a final newline.
\<close>

definition at_end :: "string \<Rightarrow> bool" where
  "at_end s = (s = [] \<or> s = [CHR 0x0A])"

definition match_middle :: "string \<Rightarrow> string option" where
  "match_middle s =
     (case lit ''_'' s of None \<Rightarrow> None | Some r1 \<Rightarrow>
      if takeWhile is_digit r1 = [] then None else
      case lit ''s_'' (dropWhile is_digit r1) of None \<Rightarrow> None | Some r2 \<Rightarrow>
      if length (take 2 r2) < 2 \<or> \<not> list_all is_alpha (take 2 r2) then None else
      case lit ''_'' (drop 2 r2) of None \<Rightarrow> None | Some r3 \<Rightarrow>
      if takeWhile is_digit r3 = [] then None else
      case lit ''x'' (dropWhile is_digit r3) of None \<Rightarrow> None | Some r4 \<Rightarrow>
      if takeWhile is_digit r4 = [] \<or> \<not> at_end (dropWhile is_digit r4) then None
      else Some (take 2 r2))"

text \<open>\<^verbatim>\<open>^([a-zA-Z]{2})_\<close>, matched at the start of the stem only.\<close>

definition match_prefix :: "string \<Rightarrow> string option" where
  "match_prefix s =
     (if length (take 2 s) = 2 \<and> list_all is_alpha (take 2 s) \<and> lit ''_'' (drop 2 s) \<noteq> None
      then Some (take 2 s) else None)"

text \<open>
  \<^verbatim>\<open>extract_language_prefix\<close> of \<^verbatim>\<open>QuickBatch.py\<close>; the argument is a file
  name without directory part, as the callers pass \<^verbatim>\<open>video_file.name\<close>.
\<close>

definition extract_language_prefix :: "string \<Rightarrow> string" where
  "extract_language_prefix filename =
     (let name_without_ext = name_stem filename in
      case re_search match_format name_without_ext of
        Some lang \<Rightarrow> lower lang
      | None \<Rightarrow>
         (case match_prefix name_without_ext of
            Some lang \<Rightarrow> lower lang
          | None \<Rightarrow> ''en''))"

text \<open>\<^verbatim>\<open>extract_language_prefix\<close> of \<^verbatim>\<open>video_renamer.py\<close>.\<close>

definition extract_language_prefix_ru :: "string \<Rightarrow> string" where
  "extract_language_prefix_ru filename =
     (let name_without_ext = name_stem filename in
      case re_search match_middle name_without_ext of
        Some lang \<Rightarrow> lower lang
      | None \<Rightarrow>
         (case match_prefix name_without_ext of
            Some lang \<Rightarrow> lower lang
          | None \<Rightarrow> ''en''))"

text \<open>\<^verbatim>\<open>(\d+s)\<close>, case sensitive.\<close>

definition match_video_duration :: "string \<Rightarrow> string option" where
  "match_video_duration s =
     (if takeWhile is_digit s = [] then None else
      case lit ''s'' (dropWhile is_digit s) of
        None \<Rightarrow> None
      | Some r \<Rightarrow> Some (takeWhile is_digit s @ ''s''))"

definition extract_duration_from_video_name :: "string \<Rightarrow> string option" where
  "extract_duration_from_video_name filename = re_search match_video_duration (name_stem filename)"

text \<open>
  The structured segment \<^verbatim>\<open>_<digits>s_<letters>_<digits>x<digits>\<close> with at least two
  letters, stated on its own: \<open>is_segment L seg\<close> when \<open>seg\<close> is such a segment with the
  letters \<open>L\<close>, and \<open>segment_at s i L\<close> when one starts at position \<open>i\<close> of \<open>s\<close>.
\<close>

definition is_segment :: "string \<Rightarrow> string \<Rightarrow> bool" where
  "is_segment L seg =
     (\<exists>N W H. seg = ''_'' @ N @ ''s_'' @ L @ ''_'' @ W @ ''x'' @ H \<and>
        N \<noteq> [] \<and> list_all is_digit N \<and> 2 \<le> length L \<and> list_all is_alpha L \<and>
        W \<noteq> [] \<and> list_all is_digit W \<and> H \<noteq> [] \<and> list_all is_digit H)"

definition segment_at :: "string \<Rightarrow> nat \<Rightarrow> string \<Rightarrow> bool" where
  "segment_at s i L = (i \<le> length s \<and> (\<exists>seg r. drop i s = seg @ r \<and> is_segment L seg))"

text \<open>
  The segment that \<^verbatim>\<open>video_renamer.py\<close> looks for: a structured segment with exactly two
  letters that runs to the end of the stem (or to a final newline).
\<close>

definition end_segment :: "string \<Rightarrow> string \<Rightarrow> bool" where
  "end_segment L s =
     (\<exists>seg. (s = seg \<or> s = seg @ [CHR 0x0A]) \<and> is_segment L seg \<and> length L = 2)"

definition end_segment_at :: "string \<Rightarrow> nat \<Rightarrow> string \<Rightarrow> bool" where
  "end_segment_at s i L = (i \<le> length s \<and> end_segment L (drop i s))"

text \<open>
  The second and third rule of either parser: the two-letter prefix, or \<^verbatim>\<open>en\<close>.
\<close>

definition prefix_or_default :: "string \<Rightarrow> string" where
  "prefix_or_default stem = (case match_prefix stem of Some lang \<Rightarrow> lower lang | None \<Rightarrow> ''en'')"
















section \<open>The duplicate-name resolver\<close>

text \<open>
  The file system is a store from paths to file contents; a path exists when the store
  holds a file there.
\<close>

type_synonym content = string
type_synonym filesystem = "path \<rightharpoonup> content"

definition exists_path :: "filesystem \<Rightarrow> path \<Rightarrow> bool" where
  "exists_path fs p = (fs p \<noteq> None)"

definition numbered_name :: "string \<Rightarrow> string \<Rightarrow> nat \<Rightarrow> string" where
  "numbered_name base_name extension counter = base_name @ ''_'' @ str_nat counter @ extension"

text \<open>
  The \<^verbatim>\<open>while True\<close> loop of \<^verbatim>\<open>handle_duplicate_names\<close>: it returns at the first
  counter whose name is free and does not return when there is none.
\<close>

partial_function (option) probe_names ::
  "filesystem \<Rightarrow> path \<Rightarrow> string \<Rightarrow> string \<Rightarrow> nat \<Rightarrow> path option" where
  "probe_names fs parent_dir base_name extension counter =
     (let new_path = joinp parent_dir (numbered_name base_name extension counter)
      in if \<not> exists_path fs new_path then Some new_path
         else probe_names fs parent_dir base_name extension (counter + 1))"

declare probe_names.simps [code]

definition handle_duplicate_names :: "filesystem \<Rightarrow> path \<Rightarrow> path option" where
  "handle_duplicate_names fs target_path =
     (if \<not> exists_path fs target_path then Some target_path
      else probe_names fs (path_parent target_path)
             (name_stem (path_name target_path)) (name_suffix (path_name target_path)) 1)"

text \<open>The \<open>k\<close>-th candidate \<^verbatim>\<open>base_k.ext\<close> beside the target.\<close>

definition numbered_path :: "path \<Rightarrow> nat \<Rightarrow> path" where
  "numbered_path target_path k =
     joinp (path_parent target_path)
       (numbered_name (name_stem (path_name target_path)) (name_suffix (path_name target_path)) k)"

section \<open>Duration grouping and the matching policy\<close>

text \<open>
  A \<^verbatim>\<open>dict\<close> from duration marker (\<open>None\<close> for no marker) to the files that carry
  it, as a list of entries in insertion order.
\<close>

type_synonym groups = "(string option \<times> path list) list"

text \<open>
  \<^verbatim>\<open>if duration not in d: d[duration] = []\<close> followed by
  \<^verbatim>\<open>d[duration].append(file)\<close>.
\<close>

fun group_add :: "string option \<Rightarrow> path \<Rightarrow> groups \<Rightarrow> groups" where
  "group_add duration file [] = [(duration, [file])]"
| "group_add duration file ((k, files) # g) =
     (if k = duration then (k, files @ [file]) # g else (k, files) # group_add duration file g)"

definition group_by_duration :: "(string \<Rightarrow> string option) \<Rightarrow> path list \<Rightarrow> groups" where
  "group_by_duration extract files =
     foldl (\<lambda>g file. group_add (extract (path_name file)) file g) [] files"

text \<open>
  \<^verbatim>\<open>find_video_files_in_subfolders\<close>, from the listing of the subfolders (the results
  of \<^verbatim>\<open>glob\<close>); \<^verbatim>\<open>find_audio_files\<close> groups the audio files in the same way, by
  their audio duration marker.
\<close>

definition find_video_files_in_subfolders :: "path list \<Rightarrow> groups" where
  "find_video_files_in_subfolders video_files =
     group_by_duration extract_duration_from_video_name video_files"

text \<open>\<^verbatim>\<open>d.get(k, [])\<close>.\<close>

definition group_of :: "groups \<Rightarrow> string option \<Rightarrow> path list" where
  "group_of g k = (case map_of g k of None \<Rightarrow> [] | Some files \<Rightarrow> files)"

text \<open>
  The calls \<^verbatim>\<open>merge_audio_video(video_file, audio_file)\<close> of the nested loops
  \<^verbatim>\<open>for audio_file in audio_files: for video_file in videos\<close>, in order.
\<close>

definition cross :: "path list \<Rightarrow> path list \<Rightarrow> (path \<times> path) list" where
  "cross audio_files videos = concat (map (\<lambda>a. map (\<lambda>v. (v, a)) videos) audio_files)"

text \<open>
  The pairs that \<^verbatim>\<open>sound_merge_mode\<close> passes to \<^verbatim>\<open>merge_audio_video\<close>, in order,
  once \<^verbatim>\<open>ffmpeg\<close> has been found; the lists it iterates over are built before the first
  call and no call changes them. The mode returns before any call when a map is empty. A subscript \<^verbatim>\<open>d[k]\<close> on a missing
  key raises \<^verbatim>\<open>KeyError\<close>: the result \<open>None\<close>.
\<close>

definition merge_pairs :: "groups \<Rightarrow> groups \<Rightarrow> (path \<times> path) list option" where
  "merge_pairs audio_by_duration video_by_duration =
     (if audio_by_duration = [] \<or> video_by_duration = [] then Some []
      else
        let audio_durations = filter (\<lambda>d. d \<noteq> None) (map fst audio_by_duration) in
        if length audio_durations = 0 then
          (case map_of audio_by_duration None of
             None \<Rightarrow> None
           | Some audio_files \<Rightarrow>
               Some (cross audio_files (concat (map snd video_by_duration))))
        else if length audio_durations = 1 \<and> None \<notin> set (map fst audio_by_duration) then
          (let duration = hd audio_durations in
           case map_of audio_by_duration duration of
             None \<Rightarrow> None
           | Some audio_files \<Rightarrow>
               Some (cross audio_files
                 (group_of video_by_duration duration @ group_of video_by_duration None)))
        else
          map_option concat
            (those (map (\<lambda>duration.
               case map_of audio_by_duration duration of
                 None \<Rightarrow> None
               | Some audio_files \<Rightarrow>
                   Some (cross audio_files (group_of video_by_duration duration)))
              audio_durations)))"

section \<open>The safe replace and backup manager\<close>

text \<open>
  \<^verbatim>\<open>os.rename\<close> of a file (and \<^verbatim>\<open>Path.rename\<close>, which calls it): all or nothing. It
  fails when the source is missing, replaces a file at the destination, and changes
  nothing when source and destination are the same file.
\<close>

definition move_file :: "filesystem \<Rightarrow> path \<Rightarrow> path \<Rightarrow> filesystem option" where
  "move_file fs src dst =
     (case fs src of None \<Rightarrow> None | Some c \<Rightarrow> Some ((fs(src := None))(dst \<mapsto> c)))"

text \<open>
  One call of \<^verbatim>\<open>merge_audio_video\<close> runs in an environment that fixes what the outside
  world does during the call: the random part of the name \<^verbatim>\<open>tempfile\<close> chooses, the
  result of the encoder (\<open>None\<close> for a non-zero exit or a missing program, otherwise the
  bytes it writes to the temporary file), which of the other file operations fail with an
  exception, and how each \<^verbatim>\<open>shutil.move\<close> ends. An operation also fails when its source
  file is missing. The store holds regular files only: directories are implicit, and a
  failure to create or reach one is a failure of the operation that needs it.
\<close>

datatype io_step = MakeTemp | MakeBackupDir | UnlinkVideo | Cleanup

datatype move_step = MoveToBackup | MoveTemp

text \<open>
  \<^verbatim>\<open>shutil.move\<close> tries \<^verbatim>\<open>os.rename\<close> and, when that raises, copies the file to the
  destination and then unlinks the source. So a move completes, or fails with the
  destination untouched, or fails after the copy has written the first \<open>n\<close> bytes to the
  destination (all of them when only the final unlink fails); the source stays in place
  when the move fails.
\<close>

datatype move_fault = Completes | FailsUntouched | FailsAfterCopying nat

record call_env =
  temp_random :: string
  encoded :: "content option"
  io_fails :: "io_step \<Rightarrow> bool"
  move_faults :: "move_step \<Rightarrow> move_fault"

text \<open>
  The call returns \<^verbatim>\<open>True\<close> or \<^verbatim>\<open>False\<close>, or an exception leaves it.
\<close>

datatype outcome = Returned bool | Raised

definition create_backup_folder :: "path \<Rightarrow> path" where
  "create_backup_folder video_path =
     (let main_dir = path_parent (path_parent video_path);
          lang_folder_name = path_name (path_parent video_path);
          backup_main_dir = joinp main_dir ''backup''
      in joinp backup_main_dir lang_folder_name)"

definition backup_path :: "path \<Rightarrow> path" where
  "backup_path video_path = joinp (create_backup_folder video_path) (path_name video_path)"

text \<open>
  \<^verbatim>\<open>NamedTemporaryFile(suffix='.mp4', dir=video_dir, delete=False)\<close>: a file named
  \<^verbatim>\<open>tmp<random>.mp4\<close> in the directory of the video.
\<close>

definition temp_path :: "call_env \<Rightarrow> path \<Rightarrow> path" where
  "temp_path e video_path = joinp (path_parent video_path) (''tmp'' @ temp_random e @ ''.mp4'')"

text \<open>
  \<^verbatim>\<open>Path.unlink\<close>, and \<^verbatim>\<open>shutil.move\<close> of a file with the way it ends; the result
  says whether the move returned, and gives the file system it leaves. A copy of a file
  onto itself is refused before anything is written.
\<close>

definition unlink :: "filesystem \<Rightarrow> path \<Rightarrow> filesystem option" where
  "unlink fs p = (case fs p of None \<Rightarrow> None | Some c \<Rightarrow> Some (fs(p := None)))"

definition shutil_move ::
  "move_fault \<Rightarrow> filesystem \<Rightarrow> path \<Rightarrow> path \<Rightarrow> bool \<times> filesystem" where
  "shutil_move fault fs src dst =
     (case fs src of
        None \<Rightarrow> (False, fs)
      | Some c \<Rightarrow>
          (case fault of
             Completes \<Rightarrow> (True, (fs(src := None))(dst \<mapsto> c))
           | FailsUntouched \<Rightarrow> (False, fs)
           | FailsAfterCopying n \<Rightarrow>
               (False, if src = dst then fs else fs(dst \<mapsto> take n c))))"

text \<open>
  The two \<^verbatim>\<open>except\<close> handlers: they delete the temporary file when it exists and
  return \<^verbatim>\<open>False\<close>; an exception of that deletion leaves the function.
\<close>

definition cleanup :: "call_env \<Rightarrow> path \<Rightarrow> filesystem \<Rightarrow> outcome \<times> filesystem" where
  "cleanup e temp fs =
     (if exists_path fs temp
      then (if io_fails e Cleanup then (Raised, fs) else (Returned False, fs(temp := None)))
      else (Returned False, fs))"

text \<open>
  The last statement of either branch: the temporary file is moved to the video path.
\<close>

definition commit :: "call_env \<Rightarrow> path \<Rightarrow> path \<Rightarrow> filesystem \<Rightarrow> outcome \<times> filesystem" where
  "commit e temp video_path fs =
     (case shutil_move (move_faults e MoveTemp) fs temp video_path of
        (True, fs') \<Rightarrow> (Returned True, fs')
      | (False, fs') \<Rightarrow> cleanup e temp fs')"

text \<open>
  \<^verbatim>\<open>merge_audio_video\<close>. A name that \<^verbatim>\<open>tempfile\<close> cannot create (the file exists)
  is a failure before \<^verbatim>\<open>temp_path\<close> is set, so nothing is cleaned up.
\<close>

definition merge_audio_video ::
  "call_env \<Rightarrow> path \<Rightarrow> path \<Rightarrow> filesystem \<Rightarrow> outcome \<times> filesystem" where
  "merge_audio_video e video_path audio_path fs =
     (let temp = temp_path e video_path in
      if io_fails e MakeTemp \<or> exists_path fs temp then (Returned False, fs)
      else
        case encoded e of
          None \<Rightarrow> cleanup e temp (fs(temp \<mapsto> []))
        | Some out \<Rightarrow>
            let fs1 = fs(temp \<mapsto> out) in
            if io_fails e MakeBackupDir then cleanup e temp fs1
            else if exists_path fs1 (backup_path video_path) then
              (if io_fails e UnlinkVideo then cleanup e temp fs1
               else case unlink fs1 video_path of
                      None \<Rightarrow> cleanup e temp fs1
                    | Some fs2 \<Rightarrow> commit e temp video_path fs2)
            else
              (case shutil_move (move_faults e MoveToBackup) fs1 video_path
                      (backup_path video_path) of
                 (True, fs2) \<Rightarrow> commit e temp video_path fs2
               | (False, fs2) \<Rightarrow> cleanup e temp fs2))"

text \<open>
  The replace operation run again and again on one video path, each call with an audio
  path and an environment of its own: the final file system, and the content the video
  had just before the first call that returned \<^verbatim>\<open>True\<close>.
\<close>

fun merge_repeatedly ::
  "(call_env \<times> path) list \<Rightarrow> path \<Rightarrow> filesystem \<Rightarrow> filesystem" where
  "merge_repeatedly [] video_path fs = fs"
| "merge_repeatedly ((e, audio_path) # calls) video_path fs =
     merge_repeatedly calls video_path (snd (merge_audio_video e video_path audio_path fs))"

fun first_replaced ::
  "(call_env \<times> path) list \<Rightarrow> path \<Rightarrow> filesystem \<Rightarrow> content option" where
  "first_replaced [] video_path fs = None"
| "first_replaced ((e, audio_path) # calls) video_path fs =
     (if fst (merge_audio_video e video_path audio_path fs) = Returned True then fs video_path
      else first_replaced calls video_path (snd (merge_audio_video e video_path audio_path fs)))"

text \<open>
  A move that completes or leaves its destination untouched; and a run in which every
  call that fails before the first successful one fails with such moves only, its
  temporary file not being the video path.
\<close>

fun all_or_nothing :: "move_fault \<Rightarrow> bool" where
  "all_or_nothing (FailsAfterCopying n) = False"
| "all_or_nothing _ = True"

fun failures_clean :: "(call_env \<times> path) list \<Rightarrow> path \<Rightarrow> filesystem \<Rightarrow> bool" where
  "failures_clean [] video_path fs = True"
| "failures_clean ((e, audio_path) # calls) video_path fs =
     (fst (merge_audio_video e video_path audio_path fs) = Returned True \<or>
      (all_or_nothing (move_faults e MoveToBackup) \<and> all_or_nothing (move_faults e MoveTemp) \<and>
       temp_path e video_path \<noteq> video_path \<and>
       failures_clean calls video_path (snd (merge_audio_video e video_path audio_path fs))))"

section \<open>The video rename mode\<close>

text \<open>\<^verbatim>\<open>str.strip()\<close>, for the ASCII white space.\<close>

definition is_space :: "char \<Rightarrow> bool" where
  "is_space c = (c \<in> set [CHR 0x09, CHR 0x0A, CHR 0x0B, CHR 0x0C, CHR 0x0D,
                             CHR 0x1C, CHR 0x1D, CHR 0x1E, CHR 0x1F, CHR 0x20])"

definition py_strip :: "string \<Rightarrow> string" where
  "py_strip s = rev (dropWhile is_space (rev (dropWhile is_space s)))"

text \<open>\<^verbatim>\<open>sub in s\<close>, and the test \<^verbatim>\<open>"WIP" in video_file.name.upper()\<close>.\<close>

fun contains :: "string \<Rightarrow> string \<Rightarrow> bool" where
  "contains sub [] = (sub = [])"
| "contains sub (c # cs) = (take (length sub) (c # cs) = sub \<or> contains sub cs)"

definition is_wip :: "string \<Rightarrow> bool" where
  "is_wip name = contains ''WIP'' (upper name)"

text \<open>
  The environment of one run: what the metadata reader finds for a file (width, height
  and duration, or \<open>None\<close> when it raises), and which file operations on which source
  file fail with an exception.
\<close>

datatype rename_step = RenameFile | MakeLanguageFolder | MoveToLanguageFolder

record rename_env =
  clip_info :: "path \<Rightarrow> (int \<times> int \<times> int) option"
  rename_fails :: "rename_step \<Rightarrow> path \<Rightarrow> bool"

definition get_video_metadata :: "rename_env \<Rightarrow> path \<Rightarrow> (string \<times> int) option" where
  "get_video_metadata env file_path =
     (case clip_info env file_path of
        None \<Rightarrow> None
      | Some (width, height, duration) \<Rightarrow>
          Some (str_int width @ ''x'' @ str_int height, duration))"

definition format_duration :: "int \<Rightarrow> string" where
  "format_duration seconds = str_int seconds @ ''s''"

definition generate_new_filename :: "string \<Rightarrow> int \<Rightarrow> string \<Rightarrow> string \<Rightarrow> string" where
  "generate_new_filename custom_name duration lang_code resolution =
     custom_name @ ''_'' @ format_duration duration @ ''_'' @ lang_code @ ''_'' @ resolution
       @ ''.mp4''"

text \<open>\<^verbatim>\<open>Path.rename\<close>: it fails when the source is missing.\<close>

definition rename_file ::
  "rename_env \<Rightarrow> rename_step \<Rightarrow> filesystem \<Rightarrow> path \<Rightarrow> path \<Rightarrow> filesystem option" where
  "rename_file env step fs src dst =
     (if rename_fails env step src then None else move_file fs src dst)"

definition create_language_folder :: "path \<Rightarrow> string \<Rightarrow> path" where
  "create_language_folder cwd lang_code = joinp cwd (upper lang_code)"

text \<open>
  \<^verbatim>\<open>organize_by_language\<close>: \<open>None\<close> when the resolver does not return,
  \<open>Inl\<close> for an exception, \<open>Inr\<close> for the file system after the move.
\<close>

definition organize_by_language ::
  "rename_env \<Rightarrow> path \<Rightarrow> filesystem \<Rightarrow> path \<Rightarrow> string \<Rightarrow> (unit + filesystem) option" where
  "organize_by_language env cwd fs file_path lang_code =
     (if rename_fails env MakeLanguageFolder file_path then Some (Inl ())
      else
        let lang_folder = create_language_folder cwd lang_code in
        case handle_duplicate_names fs (joinp lang_folder (path_name file_path)) of
          None \<Rightarrow> None
        | Some target_path \<Rightarrow>
            (case rename_file env MoveToLanguageFolder fs file_path target_path of
               None \<Rightarrow> Some (Inl ())
             | Some fs' \<Rightarrow> Some (Inr fs')))"

text \<open>
  The body of the loop over the files to process, on the file system and the two counters
  \<^verbatim>\<open>processed_count\<close> and \<^verbatim>\<open>error_count\<close>. The language extractor is a parameter:
  the two source files differ in it only.
\<close>

type_synonym rename_state = "filesystem \<times> nat \<times> nat"

definition process_video ::
  "(string \<Rightarrow> string) \<Rightarrow> rename_env \<Rightarrow> string \<Rightarrow> path \<Rightarrow> path \<Rightarrow> rename_state
     \<Rightarrow> rename_state option" where
  "process_video extract env custom_name cwd video_file st =
     (case st of (fs, processed_count, error_count) \<Rightarrow>
      let lang_code = extract (path_name video_file) in
      case get_video_metadata env video_file of
        None \<Rightarrow> Some (fs, processed_count, error_count + 1)
      | Some (resolution, duration) \<Rightarrow>
          let new_filename = generate_new_filename custom_name duration lang_code resolution in
          case handle_duplicate_names fs (joinp (path_parent video_file) new_filename) of
            None \<Rightarrow> None
          | Some new_path \<Rightarrow>
              (case rename_file env RenameFile fs video_file new_path of
                 None \<Rightarrow> Some (fs, processed_count, error_count + 1)
               | Some fs1 \<Rightarrow>
                   (case organize_by_language env cwd fs1 new_path lang_code of
                      None \<Rightarrow> None
                    | Some (Inl _) \<Rightarrow> Some (fs1, processed_count, error_count + 1)
                    | Some (Inr fs2) \<Rightarrow> Some (fs2, processed_count + 1, error_count))))"

fun process_all ::
  "(string \<Rightarrow> string) \<Rightarrow> rename_env \<Rightarrow> string \<Rightarrow> path \<Rightarrow> path list \<Rightarrow> rename_state
     \<Rightarrow> rename_state option" where
  "process_all extract env custom_name cwd [] st = Some st"
| "process_all extract env custom_name cwd (video_file # files) st =
     (case process_video extract env custom_name cwd video_file st of
        None \<Rightarrow> None
      | Some st' \<Rightarrow> process_all extract env custom_name cwd files st')"

text \<open>
  \<^verbatim>\<open>video_rename_mode\<close>, from the name the user typed and the listing
  \<^verbatim>\<open>glob("*.mp4")\<close> of the current directory.
\<close>

definition video_rename_mode ::
  "(string \<Rightarrow> string) \<Rightarrow> rename_env \<Rightarrow> string \<Rightarrow> path \<Rightarrow> path list \<Rightarrow> filesystem
     \<Rightarrow> rename_state option" where
  "video_rename_mode extract env typed_name cwd mp4_files fs =
     (let custom_name = py_strip typed_name in
      if custom_name = [] then Some (fs, 0, 0)
      else if mp4_files = [] then Some (fs, 0, 0)
      else
        let filtered_files = filter (\<lambda>video_file. \<not> is_wip (path_name video_file)) mp4_files
        in process_all extract env custom_name cwd filtered_files (fs, 0, 0))"

section \<open>Properties of the duplicate-name resolver\<close>

lemma digit_char_inj: "m < 10 \<Longrightarrow> n < 10 \<Longrightarrow> digit_char m = digit_char n \<Longrightarrow> m = n"
proof -
  assume a: "m < 10" "n < 10" "digit_char m = digit_char n"
  have d: "distinct ''0123456789''" by simp
  have l: "length ''0123456789'' = 10" by simp
  from a show "m = n" unfolding digit_char_def
    using nth_eq_iff_index_eq [OF d, of m n] l by simp
qed

lemma str_nat_small: "n < 10 \<Longrightarrow> str_nat n = [digit_char n]"
  by (subst str_nat.simps) simp

lemma str_nat_big: "\<not> n < 10 \<Longrightarrow> str_nat n = str_nat (n div 10) @ [digit_char (n mod 10)]"
  by (subst str_nat.simps) simp

lemma str_nat_nonempty: "str_nat n \<noteq> []"
  by (cases "n < 10") (simp_all add: str_nat_small str_nat_big)

lemma str_nat_inj: "str_nat m = str_nat n \<Longrightarrow> m = n"
proof (induction m arbitrary: n rule: str_nat.induct)
  case (1 m)
  show ?case
  proof (cases "m < 10")
    case True
    then have n: "n < 10" using "1.prems" str_nat_nonempty [of "n div 10"]
      by (cases "n < 10") (simp_all add: str_nat_small str_nat_big)
    with True "1.prems" show ?thesis by (simp add: str_nat_small digit_char_inj)
  next
    case False
    then have n: "\<not> n < 10" using "1.prems" str_nat_nonempty [of "m div 10"]
      by (cases "n < 10") (simp_all add: str_nat_small str_nat_big)
    from False n "1.prems" have e: "str_nat (m div 10) = str_nat (n div 10)"
      and d: "digit_char (m mod 10) = digit_char (n mod 10)"
      by (simp_all add: str_nat_big)
    from "1.IH" [OF False e] have "m div 10 = n div 10" .
    moreover from d have "m mod 10 = n mod 10" by (simp add: digit_char_inj)
    ultimately show ?thesis by (metis div_mult_mod_eq)
  qed
qed

lemma numbered_path_inj:
  "joinp d (numbered_name b e j) = joinp d (numbered_name b e k) \<Longrightarrow> j = k"
  by (auto simp: joinp_def numbered_name_def dest: str_nat_inj)

lemma probe_names_finds:
  "\<not> exists_path fs (joinp d (numbered_name b e k)) \<Longrightarrow> c \<le> k \<Longrightarrow>
   (\<And>j. c \<le> j \<Longrightarrow> j < k \<Longrightarrow> exists_path fs (joinp d (numbered_name b e j))) \<Longrightarrow>
   probe_names fs d b e c = Some (joinp d (numbered_name b e k))"
proof (induction "k - c" arbitrary: c)
  case 0
  then have "c = k" by simp
  with "0.prems"(1) show ?case by (subst probe_names.simps) simp
next
  case (Suc n)
  then have lt: "c < k" by simp
  with Suc.prems(3) have ex: "exists_path fs (joinp d (numbered_name b e c))" by simp
  have "probe_names fs d b e (c + 1) = Some (joinp d (numbered_name b e k))"
    using Suc.hyps(1) [of "c + 1"] Suc.hyps(2) Suc.prems lt by simp
  with ex show ?case by (subst probe_names.simps) simp
qed

lemma free_number_exists:
  assumes "finite (dom fs)"
  shows "\<exists>k\<ge>c. \<not> exists_path fs (joinp d (numbered_name b e k))"
proof (rule ccontr)
  assume "\<not> ?thesis"
  then have "{c..} \<subseteq> (\<lambda>k. joinp d (numbered_name b e k)) -` dom fs"
    by (auto simp: exists_path_def)
  moreover have "finite ((\<lambda>k. joinp d (numbered_name b e k)) -` dom fs)"
    by (rule finite_vimageI [OF assms]) (auto simp: inj_on_def dest: numbered_path_inj)
  ultimately have "finite {c..}" by (rule finite_subset)
  then show False by (simp add: infinite_Ici)
qed

text \<open>
  Claim C8. On a file system with finitely many files the resolver returns; a free target
  is returned unchanged, and otherwise the result is the candidate \<^verbatim>\<open>base_k.ext\<close> for the
  least \<open>k \<ge> 1\<close> that is free: every candidate below \<open>k\<close> exists.
\<close>

theorem handle_duplicate_names_first_free:
  assumes "finite (dom fs)"
  shows "(\<not> exists_path fs t \<longrightarrow> handle_duplicate_names fs t = Some t) \<and>
         (exists_path fs t \<longrightarrow>
            (\<exists>k\<ge>1. handle_duplicate_names fs t = Some (numbered_path t k) \<and>
               \<not> exists_path fs (numbered_path t k) \<and>
               (\<forall>j. 1 \<le> j \<and> j < k \<longrightarrow> exists_path fs (numbered_path t j))))"
proof (intro conjI impI)
  assume "\<not> exists_path fs t"
  then show "handle_duplicate_names fs t = Some t"
    by (simp add: handle_duplicate_names_def)
next
  assume ex: "exists_path fs t"
  define P where "P k = (1 \<le> k \<and> \<not> exists_path fs (numbered_path t k))" for k
  from free_number_exists [OF assms, of 1] have "\<exists>k. P k"
    unfolding P_def numbered_path_def by blast
  then have least: "P (LEAST k. P k)" and below: "\<And>j. j < (LEAST k. P k) \<Longrightarrow> \<not> P j"
    by (auto intro: LeastI_ex dest: not_less_Least)
  define k where "k = (LEAST k. P k)"
  from least have k1: "1 \<le> k" and free: "\<not> exists_path fs (numbered_path t k)"
    by (simp_all add: k_def P_def)
  from below have taken: "\<And>j. 1 \<le> j \<Longrightarrow> j < k \<Longrightarrow> exists_path fs (numbered_path t j)"
    unfolding k_def P_def by blast
  have "probe_names fs (path_parent t) (name_stem (path_name t)) (name_suffix (path_name t)) 1
          = Some (numbered_path t k)"
    unfolding numbered_path_def
    by (rule probe_names_finds) (use k1 free taken in \<open>simp_all add: numbered_path_def\<close>)
  with ex have "handle_duplicate_names fs t = Some (numbered_path t k)"
    by (simp add: handle_duplicate_names_def)
  with k1 free taken
  show "\<exists>k\<ge>1. handle_duplicate_names fs t = Some (numbered_path t k) \<and>
          \<not> exists_path fs (numbered_path t k) \<and>
          (\<forall>j. 1 \<le> j \<and> j < k \<longrightarrow> exists_path fs (numbered_path t j))"
    by blast
qed

definition fs_dup :: filesystem where
  "fs_dup = [[''a.mp4''] \<mapsto> ''one'', [''a_1.mp4''] \<mapsto> ''two'']"

lemma numbered_path_a: "numbered_path [''a.mp4''] 1 = [''a_1.mp4'']" "numbered_path [''a.mp4''] 2 = [''a_2.mp4'']"
  by (simp_all add: numbered_path_def joinp_def path_parent_def path_name_def name_stem_def
      name_suffix_def rfind_dot_def numbered_name_def str_nat_small digit_char_def)

theorem handle_duplicate_names_first_free_witness:
  "finite (dom fs_dup) \<and> exists_path fs_dup [''a.mp4''] \<and> \<not> exists_path fs_dup [''b.mp4''] \<and>
   handle_duplicate_names fs_dup [''a.mp4''] = Some [''a_2.mp4''] \<and>
   handle_duplicate_names fs_dup [''b.mp4''] = Some [''b.mp4'']"
proof -
  have fin: "finite (dom fs_dup)" by (simp add: fs_dup_def)
  have exa: "exists_path fs_dup [''a.mp4'']" and exb: "\<not> exists_path fs_dup [''b.mp4'']"
    and ex1: "exists_path fs_dup [''a_1.mp4'']" and ex2: "\<not> exists_path fs_dup [''a_2.mp4'']"
    by (simp_all add: fs_dup_def exists_path_def)
  from handle_duplicate_names_first_free [OF fin, of "[''b.mp4'']"] exb
  have b: "handle_duplicate_names fs_dup [''b.mp4''] = Some [''b.mp4'']" by simp
  from handle_duplicate_names_first_free [OF fin, of "[''a.mp4'']"] exa
  obtain k where k: "1 \<le> k" "handle_duplicate_names fs_dup [''a.mp4''] = Some (numbered_path [''a.mp4''] k)"
    "\<not> exists_path fs_dup (numbered_path [''a.mp4''] k)"
    "\<forall>j. 1 \<le> j \<and> j < k \<longrightarrow> exists_path fs_dup (numbered_path [''a.mp4''] j)"
    by blast
  have "k \<noteq> 1" using k(3) ex1 numbered_path_a(1) by auto
  moreover have "\<not> 2 < k"
  proof
    assume "2 < k"
    with k(4) have "exists_path fs_dup (numbered_path [''a.mp4''] 2)" by simp
    with ex2 numbered_path_a(2) show False by simp
  qed
  ultimately have "k = 2" using k(1) by simp
  with k(2) numbered_path_a(2) have "handle_duplicate_names fs_dup [''a.mp4''] = Some [''a_2.mp4'']"
    by simp
  with fin exa exb b show ?thesis by simp
qed

section \<open>Properties of the filename parser\<close>

lemma lit_iff: "lit p s = Some r \<longleftrightarrow> s = p @ r"
  unfolding lit_def by (metis append_eq_conv_conj append_take_drop_id option.inject option.simps(3))

lemma lit_None_iff: "lit p s = None \<longleftrightarrow> (\<forall>r. s \<noteq> p @ r)"
  using lit_iff [of p s] by (metis not_Some_eq)

lemma run_append:
  "list_all P xs \<Longrightarrow> ys = [] \<or> \<not> P (hd ys) \<Longrightarrow>
   takeWhile P (xs @ ys) = xs \<and> dropWhile P (xs @ ys) = ys"
  by (induction xs) (cases ys; auto)+

lemma run_append_cons:
  "list_all P xs \<Longrightarrow> \<not> P y \<Longrightarrow>
   takeWhile P (xs @ y # ys) = xs \<and> dropWhile P (xs @ y # ys) = y # ys"
  using run_append [of P xs "y # ys"] by simp

lemma run_split: "xs = takeWhile P xs @ dropWhile P xs \<and> list_all P (takeWhile P xs)"
  by (simp add: list_all_iff) (meson set_takeWhileD)

lemma not_digit_s [simp]: "\<not> is_digit CHR ''s''" "\<not> is_digit CHR ''x''" "\<not> is_digit CHR ''_''"
  by (simp_all add: is_digit_def)

lemma not_alpha_us [simp]: "\<not> is_alpha CHR ''_''"
  by (simp add: is_alpha_def lower_letters_def upper_letters_def)

lemma takeWhile_nonempty: "xs \<noteq> [] \<Longrightarrow> list_all P xs \<Longrightarrow> takeWhile P (xs @ ys) \<noteq> []"
  by (cases xs) auto

lemma match_format_segment:
  assumes "is_segment L seg"
  shows "match_format (seg @ r) = Some L"
proof -
  from assms obtain N W H where seg: "seg = ''_'' @ N @ ''s_'' @ L @ ''_'' @ W @ ''x'' @ H"
    and N: "N \<noteq> []" "list_all is_digit N" and L: "2 \<le> length L" "list_all is_alpha L"
    and W: "W \<noteq> []" "list_all is_digit W" and H: "H \<noteq> []" "list_all is_digit H"
    unfolding is_segment_def by blast
  define r4 where "r4 = H @ r"
  define r3 where "r3 = W @ CHR ''x'' # r4"
  define r2 where "r2 = L @ CHR ''_'' # r3"
  define r1 where "r1 = N @ CHR ''s'' # CHR ''_'' # r2"
  have s: "seg @ r = CHR ''_'' # r1" by (simp add: seg r1_def r2_def r3_def r4_def)
  have l1: "lit ''_'' (seg @ r) = Some r1" by (simp add: lit_iff s)
  have t1: "takeWhile is_digit r1 = N" "dropWhile is_digit r1 = CHR ''s'' # CHR ''_'' # r2"
    unfolding r1_def using run_append_cons [OF N(2), of "CHR ''s''"] by simp_all
  have l2: "lit ''s_'' (CHR ''s'' # CHR ''_'' # r2) = Some r2" by (simp add: lit_iff)
  have t2: "takeWhile is_alpha r2 = L" "dropWhile is_alpha r2 = CHR ''_'' # r3"
    unfolding r2_def using run_append_cons [OF L(2), of "CHR ''_''"] by simp_all
  have l3: "lit ''_'' (CHR ''_'' # r3) = Some r3" by (simp add: lit_iff)
  have t3: "takeWhile is_digit r3 = W" "dropWhile is_digit r3 = CHR ''x'' # r4"
    unfolding r3_def using run_append_cons [OF W(2), of "CHR ''x''"] by simp_all
  have l4: "lit ''x'' (CHR ''x'' # r4) = Some r4" by (simp add: lit_iff)
  have t4: "takeWhile is_digit r4 \<noteq> []"
    unfolding r4_def by (rule takeWhile_nonempty [OF H])
  show ?thesis
    unfolding match_format_def using N(1) L(1) W(1) by (simp add: l1 t1 l2 t2 l3 t3 l4 t4)
qed

lemma match_format_is_segment:
  assumes "match_format s = Some L"
  shows "\<exists>seg r. s = seg @ r \<and> is_segment L seg"
proof -
  from assms obtain r1 where l1: "lit ''_'' s = Some r1"
    unfolding match_format_def by (auto split: option.splits if_splits)
  from assms l1 have n1: "takeWhile is_digit r1 \<noteq> []"
    unfolding match_format_def by (auto split: option.splits if_splits)
  from assms l1 n1 obtain r2 where l2: "lit ''s_'' (dropWhile is_digit r1) = Some r2"
    unfolding match_format_def by (auto split: option.splits if_splits)
  from assms l1 n1 l2 have n2: "2 \<le> length (takeWhile is_alpha r2)"
    unfolding match_format_def by (auto split: option.splits if_splits)
  from assms l1 n1 l2 n2 obtain r3 where l3: "lit ''_'' (dropWhile is_alpha r2) = Some r3"
    unfolding match_format_def by (auto split: option.splits if_splits)
  from assms l1 n1 l2 n2 l3 have n3: "takeWhile is_digit r3 \<noteq> []"
    unfolding match_format_def by (auto split: option.splits if_splits)
  from assms l1 n1 l2 n2 l3 n3 obtain r4 where l4: "lit ''x'' (dropWhile is_digit r3) = Some r4"
    unfolding match_format_def by (auto split: option.splits if_splits)
  from assms l1 n1 l2 n2 l3 n3 l4 have n4: "takeWhile is_digit r4 \<noteq> []"
    and L: "L = takeWhile is_alpha r2"
    unfolding match_format_def by (auto split: option.splits if_splits)
  define N where "N = takeWhile is_digit r1"
  define W where "W = takeWhile is_digit r3"
  define H where "H = takeWhile is_digit r4"
  have e1: "s = ''_'' @ r1" using l1 by (simp add: lit_iff)
  have e2: "r1 = N @ ''s_'' @ r2"
    using l2 run_split [of r1 is_digit] by (simp add: lit_iff N_def)
  have e3: "r2 = L @ ''_'' @ r3"
    using l3 run_split [of r2 is_alpha] by (simp add: lit_iff L)
  have e4: "r3 = W @ ''x'' @ r4"
    using l4 run_split [of r3 is_digit] by (simp add: lit_iff W_def)
  have e5: "r4 = H @ dropWhile is_digit r4"
    by (simp add: H_def)
  have "s = (''_'' @ N @ ''s_'' @ L @ ''_'' @ W @ ''x'' @ H) @ dropWhile is_digit r4"
    by (subst e1, subst e2, subst e3, subst e4, subst e5) simp
  moreover have "is_segment L (''_'' @ N @ ''s_'' @ L @ ''_'' @ W @ ''x'' @ H)"
    unfolding is_segment_def
    using n1 n2 n3 n4 run_split [of r1 is_digit] run_split [of r2 is_alpha]
      run_split [of r3 is_digit] run_split [of r4 is_digit]
    by (intro exI [of _ N] exI [of _ W] exI [of _ H]) (simp add: N_def W_def H_def L)
  ultimately show ?thesis by blast
qed

lemma re_search_Some:
  "re_search m s = Some g \<longleftrightarrow>
     (\<exists>i\<le>length s. m (drop i s) = Some g \<and> (\<forall>j<i. m (drop j s) = None))"
proof (induction s)
  case Nil
  then show ?case by simp
next
  case (Cons c cs)
  show ?case
  proof (cases "m (c # cs)")
    case (Some h)
    have "(\<exists>i\<le>length (c # cs). m (drop i (c # cs)) = Some g \<and> (\<forall>j<i. m (drop j (c # cs)) = None))
            \<longleftrightarrow> h = g"
    proof
      assume "\<exists>i\<le>length (c # cs). m (drop i (c # cs)) = Some g \<and> (\<forall>j<i. m (drop j (c # cs)) = None)"
      then obtain i where i: "m (drop i (c # cs)) = Some g" "\<forall>j<i. m (drop j (c # cs)) = None"
        by blast
      have "i = 0"
      proof (rule ccontr)
        assume "i \<noteq> 0"
        then have "m (drop 0 (c # cs)) = None" using i(2) by blast
        with Some show False by simp
      qed
      with i(1) Some show "h = g" by simp
    next
      assume "h = g"
      with Some show "\<exists>i\<le>length (c # cs). m (drop i (c # cs)) = Some g \<and> (\<forall>j<i. m (drop j (c # cs)) = None)"
        by (intro exI [of _ 0]) simp
    qed
    with Some show ?thesis by simp
  next
    case None
    have "(\<exists>i\<le>length (c # cs). m (drop i (c # cs)) = Some g \<and> (\<forall>j<i. m (drop j (c # cs)) = None))
            \<longleftrightarrow> (\<exists>i\<le>length cs. m (drop i cs) = Some g \<and> (\<forall>j<i. m (drop j cs) = None))"
    proof
      assume "\<exists>i\<le>length (c # cs). m (drop i (c # cs)) = Some g \<and> (\<forall>j<i. m (drop j (c # cs)) = None)"
      then obtain i where i: "i \<le> length (c # cs)" "m (drop i (c # cs)) = Some g"
        "\<forall>j<i. m (drop j (c # cs)) = None" by blast
      from i(2) None obtain k where k: "i = Suc k" by (cases i) auto
      have "\<forall>j<k. m (drop j cs) = None"
      proof (intro allI impI)
        fix j assume "j < k"
        then have "Suc j < i" by (simp add: k)
        with i(3) have "m (drop (Suc j) (c # cs)) = None" by blast
        then show "m (drop j cs) = None" by simp
      qed
      with i k show "\<exists>i\<le>length cs. m (drop i cs) = Some g \<and> (\<forall>j<i. m (drop j cs) = None)"
        by (intro exI [of _ k]) simp
    next
      assume "\<exists>i\<le>length cs. m (drop i cs) = Some g \<and> (\<forall>j<i. m (drop j cs) = None)"
      then obtain i where i: "i \<le> length cs" "m (drop i cs) = Some g"
        "\<forall>j<i. m (drop j cs) = None" by blast
      have "\<forall>j<Suc i. m (drop j (c # cs)) = None"
      proof (intro allI impI)
        fix j assume j: "j < Suc i"
        show "m (drop j (c # cs)) = None"
        proof (cases j)
          case 0
          with None show ?thesis by simp
        next
          case (Suc j')
          with j i(3) show ?thesis by simp
        qed
      qed
      with i show "\<exists>i\<le>length (c # cs). m (drop i (c # cs)) = Some g \<and> (\<forall>j<i. m (drop j (c # cs)) = None)"
        by (intro exI [of _ "Suc i"]) simp
    qed
    with None Cons.IH show ?thesis by simp
  qed
qed

lemma re_search_None: "re_search m s = None \<longleftrightarrow> (\<forall>i\<le>length s. m (drop i s) = None)"
proof (induction s)
  case Nil
  then show ?case by simp
next
  case (Cons c cs)
  have "(\<forall>i\<le>length (c # cs). m (drop i (c # cs)) = None) \<longleftrightarrow>
        m (c # cs) = None \<and> (\<forall>i\<le>length cs. m (drop i cs) = None)"
  proof (intro iffI conjI allI impI)
    assume a: "\<forall>i\<le>length (c # cs). m (drop i (c # cs)) = None"
    from a have "m (drop 0 (c # cs)) = None" by blast
    then show "m (c # cs) = None" by simp
    fix i assume "i \<le> length cs"
    with a have "m (drop (Suc i) (c # cs)) = None" by (metis Suc_le_mono length_Cons)
    then show "m (drop i cs) = None" by simp
  next
    fix i assume a: "m (c # cs) = None \<and> (\<forall>i\<le>length cs. m (drop i cs) = None)"
      and i: "i \<le> length (c # cs)"
    then show "m (drop i (c # cs)) = None" by (cases i) auto
  qed
  with Cons.IH show ?case by (auto split: option.splits)
qed


lemma match_middle_segment:
  assumes "is_segment L seg" "length L = 2"
  shows "match_middle seg = Some L"
proof -
  from assms obtain N W H where seg: "seg = ''_'' @ N @ ''s_'' @ L @ ''_'' @ W @ ''x'' @ H"
    and N: "N \<noteq> []" "list_all is_digit N" and L: "list_all is_alpha L"
    and W: "W \<noteq> []" "list_all is_digit W" and H: "H \<noteq> []" "list_all is_digit H"
    unfolding is_segment_def by blast
  define r3 where "r3 = W @ CHR ''x'' # H"
  define r2 where "r2 = L @ CHR ''_'' # r3"
  define r1 where "r1 = N @ CHR ''s'' # CHR ''_'' # r2"
  have s: "seg = CHR ''_'' # r1" by (simp add: seg r1_def r2_def r3_def)
  have l1: "lit ''_'' seg = Some r1" by (simp add: lit_iff s)
  have t1: "takeWhile is_digit r1 = N" "dropWhile is_digit r1 = CHR ''s'' # CHR ''_'' # r2"
    unfolding r1_def using run_append_cons [OF N(2), of "CHR ''s''"] by simp_all
  have l2: "lit ''s_'' (CHR ''s'' # CHR ''_'' # r2) = Some r2" by (simp add: lit_iff)
  have t2: "take 2 r2 = L" "drop 2 r2 = CHR ''_'' # r3"
    unfolding r2_def using assms(2) by simp_all
  have l3: "lit ''_'' (CHR ''_'' # r3) = Some r3" by (simp add: lit_iff)
  have t3: "takeWhile is_digit r3 = W" "dropWhile is_digit r3 = CHR ''x'' # H"
    unfolding r3_def using run_append_cons [OF W(2), of "CHR ''x''"] by simp_all
  have l4: "lit ''x'' (CHR ''x'' # H) = Some H" by (simp add: lit_iff)
  have t4: "takeWhile is_digit H = H" "dropWhile is_digit H = []"
    using run_append [OF H(2), of "[]"] by simp_all
  show ?thesis
    unfolding match_middle_def using N(1) L assms(2) W(1) H(1)
    by (simp add: l1 t1 l2 t2 l3 t3 l4 t4 at_end_def)
qed

lemma match_middle_format:
  assumes "match_middle s = Some l"
  shows "match_format s = Some l"
proof -
  from assms obtain r1 where l1: "lit ''_'' s = Some r1"
    unfolding match_middle_def by (auto split: option.splits if_splits)
  from assms l1 have n1: "takeWhile is_digit r1 \<noteq> []"
    unfolding match_middle_def by (auto split: option.splits if_splits)
  from assms l1 n1 obtain r2 where l2: "lit ''s_'' (dropWhile is_digit r1) = Some r2"
    unfolding match_middle_def by (auto split: option.splits if_splits)
  from assms l1 n1 l2 have n2: "length (take 2 r2) = 2" "list_all is_alpha (take 2 r2)"
    unfolding match_middle_def by (auto split: option.splits if_splits)
  from assms l1 n1 l2 n2 obtain r3 where l3: "lit ''_'' (drop 2 r2) = Some r3"
    unfolding match_middle_def by (auto split: option.splits if_splits)
  from assms l1 n1 l2 n2 l3 have n3: "takeWhile is_digit r3 \<noteq> []"
    unfolding match_middle_def by (auto split: option.splits if_splits)
  from assms l1 n1 l2 n2 l3 n3 obtain r4 where l4: "lit ''x'' (dropWhile is_digit r3) = Some r4"
    unfolding match_middle_def by (auto split: option.splits if_splits)
  from assms l1 n1 l2 n2 l3 n3 l4 have n4: "takeWhile is_digit r4 \<noteq> []" and l: "l = take 2 r2"
    unfolding match_middle_def by (auto split: option.splits if_splits)
  have "r2 = take 2 r2 @ CHR ''_'' # r3"
    using l3 append_take_drop_id [of 2 r2] by (simp add: lit_iff)
  with run_append_cons [OF n2(2), of "CHR ''_''" r3]
  have t2: "takeWhile is_alpha r2 = take 2 r2" "dropWhile is_alpha r2 = CHR ''_'' # r3"
    by simp_all
  have l3': "lit ''_'' (CHR ''_'' # r3) = Some r3" by (simp add: lit_iff)
  show ?thesis
    unfolding match_format_def using n1 n2(1) n3 n4
    by (simp add: l1 l2 t2 l3' l4 l)
qed

lemma segment_at_match: "segment_at s i L \<Longrightarrow> match_format (drop i s) = Some L"
  unfolding segment_at_def using match_format_segment by auto

lemma match_segment_at: "i \<le> length s \<Longrightarrow> match_format (drop i s) = Some L \<Longrightarrow> segment_at s i L"
  unfolding segment_at_def using match_format_is_segment by auto

lemma search_format_leftmost:
  assumes "segment_at s i L" "\<forall>j<i. \<forall>L'. \<not> segment_at s j L'"
  shows "re_search match_format s = Some L"
proof -
  have i: "i \<le> length s" using assms(1) by (simp add: segment_at_def)
  have "\<forall>j<i. match_format (drop j s) = None"
  proof (intro allI impI)
    fix j assume j: "j < i"
    show "match_format (drop j s) = None"
    proof (cases "match_format (drop j s)")
      case (Some L')
      with j i have "segment_at s j L'" by (intro match_segment_at) simp_all
      with assms(2) j show ?thesis by blast
    qed simp
  qed
  with i segment_at_match [OF assms(1)] show ?thesis
    unfolding re_search_Some by blast
qed

lemma search_middle_leftmost:
  assumes "i \<le> length s" "is_segment L (drop i s)" "length L = 2"
    "\<forall>j<i. \<forall>L'. \<not> segment_at s j L'"
  shows "re_search match_middle s = Some L"
proof -
  have "\<forall>j<i. match_middle (drop j s) = None"
  proof (intro allI impI)
    fix j assume j: "j < i"
    show "match_middle (drop j s) = None"
    proof (cases "match_middle (drop j s)")
      case (Some L')
      then have "match_format (drop j s) = Some L'" by (rule match_middle_format)
      with j assms(1) have "segment_at s j L'" by (intro match_segment_at) simp_all
      with assms(4) j show ?thesis by blast
    qed simp
  qed
  with assms(1) match_middle_segment [OF assms(2,3)] show ?thesis
    unfolding re_search_Some by blast
qed

lemma search_no_segment:
  assumes "\<forall>i L. \<not> segment_at s i L"
  shows "re_search match_format s = None" "re_search match_middle s = None"
proof -
  have f: "\<forall>i\<le>length s. match_format (drop i s) = None"
  proof (intro allI impI)
    fix i assume i: "i \<le> length s"
    show "match_format (drop i s) = None"
    proof (cases "match_format (drop i s)")
      case (Some L)
      with i have "segment_at s i L" by (rule match_segment_at)
      with assms show ?thesis by blast
    qed simp
  qed
  then show "re_search match_format s = None" by (simp add: re_search_None)
  have "\<forall>i\<le>length s. match_middle (drop i s) = None"
  proof (intro allI impI)
    fix i assume i: "i \<le> length s"
    show "match_middle (drop i s) = None"
    proof (cases "match_middle (drop i s)")
      case (Some L)
      then have "match_format (drop i s) = Some L" by (rule match_middle_format)
      with f i show ?thesis by simp
    qed simp
  qed
  then show "re_search match_middle s = None" by (simp add: re_search_None)
qed

text \<open>
  Claim C7, as the code has it: the two implementations return the same language code for
  every file name whose stem has no structured segment, and for every file name whose
  leftmost structured segment has exactly two letters and ends the stem.
\<close>

theorem extract_language_prefix_agree:
  assumes "(\<forall>i L. \<not> segment_at (name_stem filename) i L) \<or>
           (\<exists>i L. i \<le> length (name_stem filename) \<and> is_segment L (drop i (name_stem filename)) \<and>
               length L = 2 \<and> (\<forall>j<i. \<forall>L'. \<not> segment_at (name_stem filename) j L'))"
  shows "extract_language_prefix filename = extract_language_prefix_ru filename"
  using assms
proof (elim disjE exE conjE)
  assume "\<forall>i L. \<not> segment_at (name_stem filename) i L"
  from search_no_segment [OF this] show ?thesis
    by (simp add: extract_language_prefix_def extract_language_prefix_ru_def)
next
  fix i L
  assume a: "i \<le> length (name_stem filename)" "is_segment L (drop i (name_stem filename))"
    "length L = 2" "\<forall>j<i. \<forall>L'. \<not> segment_at (name_stem filename) j L'"
  from a(1,2) have "segment_at (name_stem filename) i L"
    unfolding segment_at_def by (intro conjI exI [of _ "drop i (name_stem filename)"] exI [of _ "[]"]) simp_all
  from search_format_leftmost [OF this a(4)] search_middle_leftmost [OF a]
  show ?thesis by (simp add: extract_language_prefix_def extract_language_prefix_ru_def)
qed


lemma no_segment_before:
  "list_all (\<lambda>j. match_format (drop j s) = None) [0..<i] \<Longrightarrow> \<not> (\<exists>j<i. \<exists>L'. segment_at s j L')"
  by (auto simp: list_all_iff dest: segment_at_match)

lemma no_segment_anywhere:
  "list_all (\<lambda>j. match_format (drop j s) = None) [0..<Suc (length s)] \<Longrightarrow>
   \<not> (\<exists>i L. segment_at s i L)"
proof
  assume a: "list_all (\<lambda>j. match_format (drop j s) = None) [0..<Suc (length s)]"
    and "\<exists>i L. segment_at s i L"
  then obtain i L where s: "segment_at s i L" by blast
  then have "i \<le> length s" by (simp add: segment_at_def)
  then have "i \<in> set [0..<Suc (length s)]" by (simp del: upt_Suc)
  with a have "match_format (drop i s) = None"
    unfolding list_all_iff by blast
  with segment_at_match [OF s] show False by simp
qed

lemma stem_examples:
  "name_stem ''fr_clip_30s_de_1920x1080.mp4'' = ''fr_clip_30s_de_1920x1080''"
  "name_stem ''fr_clip_30s_deu_1920x1080.mp4'' = ''fr_clip_30s_deu_1920x1080''"
  "name_stem ''fr_clip.mp4'' = ''fr_clip''"
  by (simp_all add: name_stem_def rfind_dot_def)

lemma segment_examples:
  "is_segment ''de'' ''_30s_de_1920x1080''" "is_segment ''deu'' ''_30s_deu_1920x1080''"
  unfolding is_segment_def
  by (rule exI [of _ "''30''"], rule exI [of _ "''1920''"], rule exI [of _ "''1080''"],
      simp add: is_digit_def is_alpha_def lower_letters_def upper_letters_def)+

lemma lower_examples: "lower ''de'' = ''de''" "lower ''deu'' = ''deu''"
  by (simp_all add: lower_def to_lower_def upper_letters_def lower_letters_def)

text \<open>
  Claim C6 as stated fails for \<^verbatim>\<open>video_renamer.py\<close>: the stem below holds a structured
  segment with the letters \<^verbatim>\<open>deu\<close>, and the two-letter prefix \<^verbatim>\<open>fr\<close> is returned.
\<close>

theorem extract_language_prefix_ru_counterexample:
  "segment_at (name_stem ''fr_clip_30s_deu_1920x1080.mp4'') 7 ''deu'' \<and>
   \<not> (\<exists>j<7. \<exists>L'. segment_at (name_stem ''fr_clip_30s_deu_1920x1080.mp4'') j L') \<and>
   extract_language_prefix_ru ''fr_clip_30s_deu_1920x1080.mp4'' = ''fr'' \<and>
   lower ''deu'' \<noteq> ''fr''"
proof -
  let ?f = "''fr_clip_30s_deu_1920x1080.mp4''"
  have "is_segment ''deu'' (drop 7 (name_stem ?f))"
    using segment_examples(2) by (simp add: stem_examples)
  then have at: "segment_at (name_stem ?f) 7 ''deu''"
    unfolding segment_at_def
    by (intro conjI exI [of _ "drop 7 (name_stem ?f)"] exI [of _ "[]"]) (simp_all add: stem_examples)
  have "list_all (\<lambda>j. match_format (drop j (name_stem ?f)) = None) [0..<7]"
    unfolding stem_examples by code_simp
  then have first: "\<not> (\<exists>j<7. \<exists>L'. segment_at (name_stem ?f) j L')"
    by (rule no_segment_before)
  have "extract_language_prefix_ru ?f = ''fr''" by code_simp
  with at first show ?thesis by (simp add: lower_examples)
qed

theorem extract_language_prefix_agree_witness:
  "\<not> (\<exists>i L. segment_at (name_stem ''fr_clip.mp4'') i L) \<and>
   extract_language_prefix ''fr_clip.mp4'' = extract_language_prefix_ru ''fr_clip.mp4'' \<and>
   is_segment ''de'' (drop 7 (name_stem ''fr_clip_30s_de_1920x1080.mp4'')) \<and>
   \<not> (\<exists>j<7. \<exists>L'. segment_at (name_stem ''fr_clip_30s_de_1920x1080.mp4'') j L') \<and>
   extract_language_prefix ''fr_clip_30s_de_1920x1080.mp4'' =
     extract_language_prefix_ru ''fr_clip_30s_de_1920x1080.mp4''"
proof -
  let ?f = "''fr_clip.mp4''" and ?g = "''fr_clip_30s_de_1920x1080.mp4''"
  have "list_all (\<lambda>j. match_format (drop j (name_stem ?f)) = None) [0..<Suc (length (name_stem ?f))]"
    unfolding stem_examples by code_simp
  then have none: "\<not> (\<exists>i L. segment_at (name_stem ?f) i L)"
    by (rule no_segment_anywhere)
  with extract_language_prefix_agree [of ?f]
  have f: "extract_language_prefix ?f = extract_language_prefix_ru ?f" by blast
  have seg: "is_segment ''de'' (drop 7 (name_stem ?g))"
    using segment_examples(1) by (simp add: stem_examples)
  have "list_all (\<lambda>j. match_format (drop j (name_stem ?g)) = None) [0..<7]"
    unfolding stem_examples by code_simp
  then have first: "\<not> (\<exists>j<7. \<exists>L'. segment_at (name_stem ?g) j L')"
    by (rule no_segment_before)
  have len: "7 \<le> length (name_stem ?g)" "length ''de'' = 2" by (simp_all add: stem_examples)
  from seg first len have "\<exists>i L. i \<le> length (name_stem ?g) \<and> is_segment L (drop i (name_stem ?g)) \<and>
      length L = 2 \<and> (\<forall>j<i. \<forall>L'. \<not> segment_at (name_stem ?g) j L')"
    by (intro exI [of _ 7] exI [of _ "''de''"]) blast
  with extract_language_prefix_agree [of ?g]
  have g: "extract_language_prefix ?g = extract_language_prefix_ru ?g" by blast
  from none f seg first g show ?thesis by blast
qed

text \<open>
  Claim C7 as stated fails: the two implementations differ on a stem whose structured
  segment is followed by more text.
\<close>

theorem extract_language_prefix_differ:
  "extract_language_prefix ''clip_30s_de_1920x1080_v2.mp4'' = ''de'' \<and>
   extract_language_prefix_ru ''clip_30s_de_1920x1080_v2.mp4'' = ''en''"
  by code_simp

lemma match_middle_segment_rest:
  assumes "is_segment L seg" "length L = 2" "at_end r"
  shows "match_middle (seg @ r) = Some L"
proof -
  from assms obtain N W H where seg: "seg = ''_'' @ N @ ''s_'' @ L @ ''_'' @ W @ ''x'' @ H"
    and N: "N \<noteq> []" "list_all is_digit N" and L: "list_all is_alpha L"
    and W: "W \<noteq> []" "list_all is_digit W" and H: "H \<noteq> []" "list_all is_digit H"
    unfolding is_segment_def by blast
  define r4 where "r4 = H @ r"
  define r3 where "r3 = W @ CHR ''x'' # r4"
  define r2 where "r2 = L @ CHR ''_'' # r3"
  define r1 where "r1 = N @ CHR ''s'' # CHR ''_'' # r2"
  have s: "seg @ r = CHR ''_'' # r1" by (simp add: seg r1_def r2_def r3_def r4_def)
  have l1: "lit ''_'' (seg @ r) = Some r1" by (simp add: lit_iff s)
  have t1: "takeWhile is_digit r1 = N" "dropWhile is_digit r1 = CHR ''s'' # CHR ''_'' # r2"
    unfolding r1_def using run_append_cons [OF N(2), of "CHR ''s''"] by simp_all
  have l2: "lit ''s_'' (CHR ''s'' # CHR ''_'' # r2) = Some r2" by (simp add: lit_iff)
  have t2: "take 2 r2 = L" "drop 2 r2 = CHR ''_'' # r3"
    unfolding r2_def using assms(2) by simp_all
  have l3: "lit ''_'' (CHR ''_'' # r3) = Some r3" by (simp add: lit_iff)
  have t3: "takeWhile is_digit r3 = W" "dropWhile is_digit r3 = CHR ''x'' # r4"
    unfolding r3_def using run_append_cons [OF W(2), of "CHR ''x''"] by simp_all
  have l4: "lit ''x'' (CHR ''x'' # r4) = Some r4" by (simp add: lit_iff)
  have nl: "\<not> is_digit (CHR 0x0A)" by (simp add: is_digit_def)
  have "r = [] \<or> \<not> is_digit (hd r)" using assms(3) nl by (auto simp: at_end_def)
  from run_append [OF H(2) this]
  have t4: "takeWhile is_digit r4 = H" "dropWhile is_digit r4 = r"
    unfolding r4_def by simp_all
  show ?thesis
    unfolding match_middle_def using N(1) L assms(2,3) W(1) H(1)
    by (simp add: l1 t1 l2 t2 l3 t3 l4 t4)
qed

lemma end_segment_match: "end_segment L s \<Longrightarrow> match_middle s = Some L"
proof -
  assume "end_segment L s"
  then obtain seg where seg: "s = seg \<or> s = seg @ [CHR 0x0A]" "is_segment L seg" "length L = 2"
    unfolding end_segment_def by blast
  from seg(1) show ?thesis
  proof
    assume "s = seg"
    with match_middle_segment_rest [OF seg(2,3), of "[]"] show ?thesis by (simp add: at_end_def)
  next
    assume "s = seg @ [CHR 0x0A]"
    with match_middle_segment_rest [OF seg(2,3), of "[CHR 0x0A]"] show ?thesis
      by (simp add: at_end_def)
  qed
qed

lemma match_end_segment:
  assumes "match_middle s = Some L"
  shows "end_segment L s"
proof -
  from assms obtain r1 where l1: "lit ''_'' s = Some r1"
    unfolding match_middle_def by (auto split: option.splits if_splits)
  from assms l1 have n1: "takeWhile is_digit r1 \<noteq> []"
    unfolding match_middle_def by (auto split: option.splits if_splits)
  from assms l1 n1 obtain r2 where l2: "lit ''s_'' (dropWhile is_digit r1) = Some r2"
    unfolding match_middle_def by (auto split: option.splits if_splits)
  from assms l1 n1 l2 have n2: "length (take 2 r2) = 2" "list_all is_alpha (take 2 r2)"
    unfolding match_middle_def by (auto split: option.splits if_splits)
  from assms l1 n1 l2 n2 obtain r3 where l3: "lit ''_'' (drop 2 r2) = Some r3"
    unfolding match_middle_def by (auto split: option.splits if_splits)
  from assms l1 n1 l2 n2 l3 have n3: "takeWhile is_digit r3 \<noteq> []"
    unfolding match_middle_def by (auto split: option.splits if_splits)
  from assms l1 n1 l2 n2 l3 n3 obtain r4 where l4: "lit ''x'' (dropWhile is_digit r3) = Some r4"
    unfolding match_middle_def by (auto split: option.splits if_splits)
  from assms l1 n1 l2 n2 l3 n3 l4 have n4: "takeWhile is_digit r4 \<noteq> []"
    and e: "at_end (dropWhile is_digit r4)" and L: "L = take 2 r2"
    unfolding match_middle_def by (auto split: option.splits if_splits)
  define N where "N = takeWhile is_digit r1"
  define W where "W = takeWhile is_digit r3"
  define H where "H = takeWhile is_digit r4"
  define seg where "seg = ''_'' @ N @ ''s_'' @ L @ ''_'' @ W @ ''x'' @ H"
  have e1: "s = ''_'' @ r1" using l1 by (simp add: lit_iff)
  have e2: "r1 = N @ ''s_'' @ r2"
    using l2 run_split [of r1 is_digit] by (simp add: lit_iff N_def)
  have e3: "r2 = L @ ''_'' @ r3"
    using l3 append_take_drop_id [of 2 r2] by (simp add: lit_iff L)
  have e4: "r3 = W @ ''x'' @ r4"
    using l4 run_split [of r3 is_digit] by (simp add: lit_iff W_def)
  have e5: "r4 = H @ dropWhile is_digit r4"
    by (simp add: H_def)
  have "s = seg @ dropWhile is_digit r4"
    unfolding seg_def by (subst e1, subst e2, subst e3, subst e4, subst e5) simp
  with e have place: "s = seg \<or> s = seg @ [CHR 0x0A]" by (auto simp: at_end_def)
  have "is_segment L seg"
    unfolding is_segment_def seg_def
    using n1 n2 n3 n4 run_split [of r1 is_digit] run_split [of r3 is_digit]
      run_split [of r4 is_digit]
    by (intro exI [of _ N] exI [of _ W] exI [of _ H]) (simp add: N_def W_def H_def L)
  with place n2(1) L show ?thesis unfolding end_segment_def by blast
qed

lemma search_end_segment_leftmost:
  assumes "end_segment_at s i L" "\<forall>j<i. \<forall>L'. \<not> end_segment_at s j L'"
  shows "re_search match_middle s = Some L"
proof -
  have i: "i \<le> length s" and m: "match_middle (drop i s) = Some L"
    using assms(1) by (simp_all add: end_segment_at_def end_segment_match)
  have "\<forall>j<i. match_middle (drop j s) = None"
  proof (intro allI impI)
    fix j assume j: "j < i"
    show "match_middle (drop j s) = None"
    proof (cases "match_middle (drop j s)")
      case (Some L')
      then have "end_segment L' (drop j s)" by (rule match_end_segment)
      with j i have "end_segment_at s j L'" by (simp add: end_segment_at_def)
      with assms(2) j show ?thesis by blast
    qed simp
  qed
  with i m show ?thesis unfolding re_search_Some by blast
qed

lemma search_no_end_segment:
  assumes "\<forall>i L. \<not> end_segment_at s i L"
  shows "re_search match_middle s = None"
proof -
  have "\<forall>i\<le>length s. match_middle (drop i s) = None"
  proof (intro allI impI)
    fix i assume i: "i \<le> length s"
    show "match_middle (drop i s) = None"
    proof (cases "match_middle (drop i s)")
      case (Some L)
      then have "end_segment L (drop i s)" by (rule match_end_segment)
      with i have "end_segment_at s i L" by (simp add: end_segment_at_def)
      with assms show ?thesis by blast
    qed simp
  qed
  then show ?thesis by (simp add: re_search_None)
qed

text \<open>
  Claim C6, as the code has it. In \<^verbatim>\<open>QuickBatch.py\<close>, when the leftmost structured
  segment of the stem has the letters \<open>L\<close>, the language code is \<open>L\<close> in lower case,
  whatever the stem starts with. In \<^verbatim>\<open>video_renamer.py\<close> the language code is the letters
  group, in lower case, of the leftmost structured segment that has exactly two letters
  and runs to the end of the stem; a stem without such a segment is handled by the
  two-letter prefix rule and the default.
\<close>

theorem extract_language_prefix_structured:
  "(segment_at (name_stem filename) i L \<and> (\<forall>j<i. \<forall>L'. \<not> segment_at (name_stem filename) j L')
      \<longrightarrow> extract_language_prefix filename = lower L) \<and>
   (end_segment_at (name_stem filename) i L \<and>
    (\<forall>j<i. \<forall>L'. \<not> end_segment_at (name_stem filename) j L')
      \<longrightarrow> extract_language_prefix_ru filename = lower L) \<and>
   ((\<forall>i L. \<not> end_segment_at (name_stem filename) i L)
      \<longrightarrow> extract_language_prefix_ru filename = prefix_or_default (name_stem filename))"
proof (intro conjI impI)
  assume "segment_at (name_stem filename) i L \<and> (\<forall>j<i. \<forall>L'. \<not> segment_at (name_stem filename) j L')"
  then have "re_search match_format (name_stem filename) = Some L"
    using search_format_leftmost by blast
  then show "extract_language_prefix filename = lower L"
    by (simp add: extract_language_prefix_def)
next
  assume "end_segment_at (name_stem filename) i L \<and>
    (\<forall>j<i. \<forall>L'. \<not> end_segment_at (name_stem filename) j L')"
  then have "re_search match_middle (name_stem filename) = Some L"
    using search_end_segment_leftmost by blast
  then show "extract_language_prefix_ru filename = lower L"
    by (simp add: extract_language_prefix_ru_def)
next
  assume "\<forall>i L. \<not> end_segment_at (name_stem filename) i L"
  then have "re_search match_middle (name_stem filename) = None"
    by (rule search_no_end_segment)
  then show "extract_language_prefix_ru filename = prefix_or_default (name_stem filename)"
    by (simp add: extract_language_prefix_ru_def prefix_or_default_def)
qed


lemma no_end_segment_before:
  "list_all (\<lambda>j. match_middle (drop j s) = None) [0..<i] \<Longrightarrow>
   \<not> (\<exists>j<i. \<exists>L'. end_segment_at s j L')"
  by (auto simp: list_all_iff end_segment_at_def dest: end_segment_match)

lemma no_end_segment_anywhere:
  "list_all (\<lambda>j. match_middle (drop j s) = None) [0..<Suc (length s)] \<Longrightarrow>
   \<not> (\<exists>i L. end_segment_at s i L)"
proof
  assume a: "list_all (\<lambda>j. match_middle (drop j s) = None) [0..<Suc (length s)]"
    and "\<exists>i L. end_segment_at s i L"
  then obtain i L where s: "end_segment_at s i L" by blast
  then have "i \<in> set [0..<Suc (length s)]" by (simp add: end_segment_at_def del: upt_Suc)
  with a have "match_middle (drop i s) = None"
    unfolding list_all_iff by blast
  moreover from s have "match_middle (drop i s) = Some L"
    by (simp add: end_segment_at_def end_segment_match)
  ultimately show False by simp
qed

theorem extract_language_prefix_structured_witness:
  "segment_at (name_stem ''fr_clip_30s_de_1920x1080.mp4'') 7 ''de'' \<and>
   \<not> (\<exists>j<7. \<exists>L'. segment_at (name_stem ''fr_clip_30s_de_1920x1080.mp4'') j L') \<and>
   extract_language_prefix ''fr_clip_30s_de_1920x1080.mp4'' = ''de'' \<and>
   end_segment_at (name_stem ''ab_30s_cd_1x1_30s_ef_2x2.mp4'') 13 ''ef'' \<and>
   \<not> (\<exists>j<13. \<exists>L'. end_segment_at (name_stem ''ab_30s_cd_1x1_30s_ef_2x2.mp4'') j L') \<and>
   extract_language_prefix_ru ''ab_30s_cd_1x1_30s_ef_2x2.mp4'' = ''ef'' \<and>
   \<not> (\<exists>i L. end_segment_at (name_stem ''fr_clip_30s_deu_1920x1080.mp4'') i L) \<and>
   extract_language_prefix_ru ''fr_clip_30s_deu_1920x1080.mp4'' = ''fr''"
proof -
  let ?f = "''fr_clip_30s_de_1920x1080.mp4''"
  let ?g = "''ab_30s_cd_1x1_30s_ef_2x2.mp4''"
  let ?h = "''fr_clip_30s_deu_1920x1080.mp4''"
  have sg: "name_stem ?g = ''ab_30s_cd_1x1_30s_ef_2x2''"
    by (simp add: name_stem_def rfind_dot_def)
  have "is_segment ''de'' (drop 7 (name_stem ?f))"
    using segment_examples(1) by (simp add: stem_examples)
  then have at: "segment_at (name_stem ?f) 7 ''de''"
    unfolding segment_at_def
    by (intro conjI exI [of _ "drop 7 (name_stem ?f)"] exI [of _ "[]"]) (simp_all add: stem_examples)
  have "list_all (\<lambda>j. match_format (drop j (name_stem ?f)) = None) [0..<7]"
    unfolding stem_examples by code_simp
  then have first: "\<not> (\<exists>j<7. \<exists>L'. segment_at (name_stem ?f) j L')"
    by (rule no_segment_before)
  have "is_segment ''ef'' ''_30s_ef_2x2''"
    unfolding is_segment_def
    by (rule exI [of _ "''30''"], rule exI [of _ "''2''"], rule exI [of _ "''2''"])
       (simp add: is_digit_def is_alpha_def lower_letters_def upper_letters_def)
  then have "end_segment ''ef'' (drop 13 (name_stem ?g))"
    unfolding end_segment_def sg by (intro exI [of _ "''_30s_ef_2x2''"]) simp
  then have eat: "end_segment_at (name_stem ?g) 13 ''ef''"
    by (simp add: end_segment_at_def sg)
  have "list_all (\<lambda>j. match_middle (drop j (name_stem ?g)) = None) [0..<13]"
    unfolding sg by code_simp
  then have efirst: "\<not> (\<exists>j<13. \<exists>L'. end_segment_at (name_stem ?g) j L')"
    by (rule no_end_segment_before)
  have "list_all (\<lambda>j. match_middle (drop j (name_stem ?h)) = None)
          [0..<Suc (length (name_stem ?h))]"
    unfolding stem_examples by code_simp
  then have none: "\<not> (\<exists>i L. end_segment_at (name_stem ?h) i L)"
    by (rule no_end_segment_anywhere)
  have fallback: "prefix_or_default (name_stem ?h) = ''fr''"
    unfolding stem_examples by code_simp
  have lo: "lower ''ef'' = ''ef''" by code_simp
  from extract_language_prefix_structured [of ?f 7 "''de''"] at first
  have a: "extract_language_prefix ?f = lower ''de''" by blast
  from extract_language_prefix_structured [of ?g 13 "''ef''"] eat efirst
  have b: "extract_language_prefix_ru ?g = lower ''ef''" by blast
  from extract_language_prefix_structured [of ?h 0 "[]"] none
  have c: "extract_language_prefix_ru ?h = prefix_or_default (name_stem ?h)" by blast
  from at first a eat efirst b none c fallback lo show ?thesis
    by (simp add: lower_examples)
qed
















section \<open>Properties of the matching policy\<close>

lemma length_cross: "length (cross xs ys) = length xs * length ys"
  by (induction xs) (simp_all add: cross_def)

lemma set_cross: "(v, a) \<in> set (cross xs ys) \<longleftrightarrow> a \<in> set xs \<and> v \<in> set ys"
  by (auto simp: cross_def)

lemma cross_Nil [simp]: "cross xs [] = []"
  by (induction xs) (simp_all add: cross_def)

lemma group_of_Nil [simp]: "group_of [] k = []"
  by (simp add: group_of_def)

lemma group_of_absent: "k \<notin> set (map fst g) \<Longrightarrow> group_of g k = []"
  by (simp add: group_of_def map_of_eq_None_iff [THEN iffD2])

lemma those_present:
  "set ks \<subseteq> set (map fst g) \<Longrightarrow>
   those (map (\<lambda>k. case map_of g k of None \<Rightarrow> None | Some files \<Rightarrow> Some (f files k)) ks)
     = Some (map (\<lambda>k. f (group_of g k) k) ks)"
proof (induction ks)
  case Nil
  then show ?case by simp
next
  case (Cons k ks)
  then have "k \<in> fst ` set g" by simp
  then obtain files where "map_of g k = Some files"
    by (metis map_of_eq_None_iff not_Some_eq)
  with Cons show ?case by (simp add: group_of_def)
qed

lemma single_group:
  assumes "g \<noteq> []" "distinct (map fst g)" "\<forall>k\<in>set (map fst g). k = c"
  shows "\<exists>files. g = [(c, files)]"
proof -
  from assms(1) obtain k files rest where g: "g = (k, files) # rest" by (cases g) auto
  with assms(3) have k: "k = c" by simp
  have "rest = []"
  proof (cases rest)
    case (Cons e rest')
    with g assms(3) have "fst e = c" by simp
    with g k Cons assms(2) show ?thesis by simp
  qed simp
  with g k show ?thesis by simp
qed

text \<open>
  Claim C5. When the audio map is not empty and all its keys are the sentinel, and the
  video map is not empty, every audio file is paired with every video file of every video
  group: as many pairs as audio files times video files.
\<close>

theorem merge_pairs_unmarked_audio:
  assumes "audio \<noteq> []" "video \<noteq> []" "distinct (map fst audio)"
    "\<forall>k\<in>set (map fst audio). k = None"
  shows "merge_pairs audio video
           = Some (cross (concat (map snd audio)) (concat (map snd video))) \<and>
         length (cross (concat (map snd audio)) (concat (map snd video)))
           = length (concat (map snd audio)) * length (concat (map snd video))"
proof -
  from single_group [OF assms(1,3,4)] obtain files where a: "audio = [(None, files)]" by blast
  with assms(2) show ?thesis by (simp add: merge_pairs_def length_cross)
qed

text \<open>
  Claim C3. When the audio map has one concrete marker \<open>d\<close> and no sentinel key, the pairs
  are the audio files of \<open>d\<close> with the video files of \<open>d\<close> followed by the video files
  without marker; no video of another group is paired.
\<close>

theorem merge_pairs_single_marker:
  assumes "filter (\<lambda>k. k \<noteq> None) (map fst audio) = [Some d]" "None \<notin> set (map fst audio)"
  shows "merge_pairs audio video
           = Some (cross (group_of audio (Some d))
                     (group_of video (Some d) @ group_of video None)) \<and>
         length (cross (group_of audio (Some d)) (group_of video (Some d) @ group_of video None))
           = length (group_of audio (Some d)) *
             (length (group_of video (Some d)) + length (group_of video None)) \<and>
         (\<forall>v a. (v, a) \<in> set (cross (group_of audio (Some d))
                     (group_of video (Some d) @ group_of video None))
            \<longrightarrow> v \<in> set (group_of video (Some d)) \<or> v \<in> set (group_of video None))"
proof -
  have "\<forall>k\<in>set (map fst audio). k \<noteq> None" using assms(2) by metis
  then have "filter (\<lambda>k. k \<noteq> None) (map fst audio) = map fst audio"
    by (rule filter_True)
  with assms(1) have keys: "map fst audio = [Some d]" by simp
  then obtain files where a: "audio = [(Some d, files)]" by (cases audio) auto
  have m: "merge_pairs audio video
           = Some (cross (group_of audio (Some d))
                     (group_of video (Some d) @ group_of video None))"
  proof (cases "video = []")
    case True
    then show ?thesis by (simp add: merge_pairs_def)
  next
    case False
    with a show ?thesis by (simp add: merge_pairs_def group_of_def)
  qed
  then show ?thesis by (simp add: length_cross set_cross)
qed

text \<open>
  Claim C4. When the audio map has several concrete markers, or a concrete marker and
  the sentinel, the mode raises no error and pairs an audio file with a video file exactly
  when both carry the same concrete marker.
\<close>

theorem merge_pairs_strict:
  assumes "2 \<le> length (filter (\<lambda>k. k \<noteq> None) (map fst audio)) \<or>
     (filter (\<lambda>k. k \<noteq> None) (map fst audio) \<noteq> [] \<and> None \<in> set (map fst audio))"
  shows "merge_pairs audio video
           = Some (concat (map (\<lambda>k. cross (group_of audio k) (group_of video k))
                     (filter (\<lambda>k. k \<noteq> None) (map fst audio)))) \<and>
         (\<forall>v a. (v, a) \<in> set (concat (map (\<lambda>k. cross (group_of audio k) (group_of video k))
                     (filter (\<lambda>k. k \<noteq> None) (map fst audio))))
            \<longleftrightarrow> (\<exists>d. a \<in> set (group_of audio (Some d)) \<and> v \<in> set (group_of video (Some d))))"
proof -
  define ds where "ds = filter (\<lambda>k. k \<noteq> None) (map fst audio)"
  define strict where "strict = concat (map (\<lambda>k. cross (group_of audio k) (group_of video k)) ds)"
  have a2: "2 \<le> length ds \<or> (ds \<noteq> [] \<and> None \<in> set (map fst audio))"
    using assms unfolding ds_def .
  have sub: "set ds \<subseteq> set (map fst audio)" unfolding ds_def by (rule filter_is_subset)
  have ne: "audio \<noteq> []"
  proof
    assume "audio = []"
    then have "ds = []" by (simp add: ds_def)
    with a2 show False by simp
  qed
  have tier1: "length ds \<noteq> 0" using a2 by auto
  have tier2: "\<not> (length ds = 1 \<and> None \<notin> set (map fst audio))" using a2 by auto
  have m: "merge_pairs audio video = Some strict"
  proof (cases "video = []")
    case True
    have "strict = []" by (simp add: True strict_def)
    with True show ?thesis by (simp add: merge_pairs_def)
  next
    case False
    have "those (map (\<lambda>k. case map_of audio k of None \<Rightarrow> None
              | Some files \<Rightarrow> Some (cross files (group_of video k))) ds)
          = Some (map (\<lambda>k. cross (group_of audio k) (group_of video k)) ds)"
      using sub by (rule those_present)
    with ne False tier1 tier2 show ?thesis
      unfolding merge_pairs_def Let_def ds_def [symmetric] strict_def by auto
  qed
  have mem: "(v, a) \<in> set strict
      \<longleftrightarrow> (\<exists>d. a \<in> set (group_of audio (Some d)) \<and> v \<in> set (group_of video (Some d)))" for v a
  proof
    assume "(v, a) \<in> set strict"
    then obtain k where k: "k \<in> set ds" "(v, a) \<in> set (cross (group_of audio k) (group_of video k))"
      unfolding strict_def by auto
    from k(1) have "k \<noteq> None" unfolding ds_def by simp
    then obtain d where "k = Some d" by (cases k) auto
    with k(2) show "\<exists>d. a \<in> set (group_of audio (Some d)) \<and> v \<in> set (group_of video (Some d))"
      by (auto simp: set_cross)
  next
    assume "\<exists>d. a \<in> set (group_of audio (Some d)) \<and> v \<in> set (group_of video (Some d))"
    then obtain d where d: "a \<in> set (group_of audio (Some d))" "v \<in> set (group_of video (Some d))"
      by blast
    have "Some d \<in> set (map fst audio)"
    proof (rule ccontr)
      assume "Some d \<notin> set (map fst audio)"
      then have "group_of audio (Some d) = []" by (rule group_of_absent)
      with d(1) show False by simp
    qed
    then have "Some d \<in> set ds" unfolding ds_def by simp
    with d show "(v, a) \<in> set strict" unfolding strict_def by (auto simp: set_cross)
  qed
  from m mem show ?thesis unfolding strict_def ds_def by blast
qed


definition audio_unmarked :: groups where
  "audio_unmarked = [(None, [[''x.wav''], [''y.wav'']])]"

definition video_mixed :: groups where
  "video_mixed = [(Some ''30s'', [[''EN'', ''v1_30s.mp4'']]), (None, [[''RU'', ''v2.mp4'']])]"

theorem merge_pairs_unmarked_audio_witness:
  "audio_unmarked \<noteq> [] \<and> video_mixed \<noteq> [] \<and> map fst audio_unmarked = [None] \<and>
   merge_pairs audio_unmarked video_mixed =
     Some [([''EN'', ''v1_30s.mp4''], [''x.wav'']), ([''RU'', ''v2.mp4''], [''x.wav'']),
           ([''EN'', ''v1_30s.mp4''], [''y.wav'']), ([''RU'', ''v2.mp4''], [''y.wav''])] \<and>
   length (cross (concat (map snd audio_unmarked)) (concat (map snd video_mixed))) = 2 * 2"
proof -
  have h: "audio_unmarked \<noteq> []" "video_mixed \<noteq> []" "distinct (map fst audio_unmarked)"
    "\<forall>k\<in>set (map fst audio_unmarked). k = None"
    by (simp_all add: audio_unmarked_def video_mixed_def)
  have k: "map fst audio_unmarked = [None]" by (simp add: audio_unmarked_def)
  have c: "cross (concat (map snd audio_unmarked)) (concat (map snd video_mixed)) =
      [([''EN'', ''v1_30s.mp4''], [''x.wav'']), ([''RU'', ''v2.mp4''], [''x.wav'']),
       ([''EN'', ''v1_30s.mp4''], [''y.wav'']), ([''RU'', ''v2.mp4''], [''y.wav''])]"
    by (simp add: audio_unmarked_def video_mixed_def cross_def)
  have l: "length (concat (map snd audio_unmarked)) = 2" "length (concat (map snd video_mixed)) = 2"
    by (simp_all add: audio_unmarked_def video_mixed_def)
  from merge_pairs_unmarked_audio [OF h] show ?thesis
    using h(1,2) k by (simp only: c l) simp
qed

definition audio_single :: groups where
  "audio_single = [(Some ''30s'', [[''a_30s.wav'']])]"

definition video_split :: groups where
  "video_split = [(Some ''30s'', [[''EN'', ''v1_30s.mp4''], [''EN'', ''v2_30s.mp4'']]),
                  (None, [[''EN'', ''v3.mp4'']]),
                  (Some ''45s'', [[''EN'', ''v4_45s.mp4'']])]"

theorem merge_pairs_single_marker_witness:
  "filter (\<lambda>k. k \<noteq> None) (map fst audio_single) = [Some ''30s''] \<and>
   None \<notin> set (map fst audio_single) \<and>
   merge_pairs audio_single video_split =
     Some [([''EN'', ''v1_30s.mp4''], [''a_30s.wav'']), ([''EN'', ''v2_30s.mp4''], [''a_30s.wav'']),
           ([''EN'', ''v3.mp4''], [''a_30s.wav''])] \<and>
   group_of video_split (Some ''45s'') = [[''EN'', ''v4_45s.mp4'']]"
proof -
  have h: "filter (\<lambda>k. k \<noteq> None) (map fst audio_single) = [Some ''30s'']"
    "None \<notin> set (map fst audio_single)"
    by (simp_all add: audio_single_def)
  have c: "cross (group_of audio_single (Some ''30s''))
             (group_of video_split (Some ''30s'') @ group_of video_split None) =
      [([''EN'', ''v1_30s.mp4''], [''a_30s.wav'']), ([''EN'', ''v2_30s.mp4''], [''a_30s.wav'']),
       ([''EN'', ''v3.mp4''], [''a_30s.wav''])]"
    by (simp add: audio_single_def video_split_def cross_def group_of_def)
  have g: "group_of video_split (Some ''45s'') = [[''EN'', ''v4_45s.mp4'']]"
    by (simp add: video_split_def group_of_def)
  from merge_pairs_single_marker [OF h, of video_split]
  have "merge_pairs audio_single video_split =
     Some [([''EN'', ''v1_30s.mp4''], [''a_30s.wav'']), ([''EN'', ''v2_30s.mp4''], [''a_30s.wav'']),
           ([''EN'', ''v3.mp4''], [''a_30s.wav''])]"
    by (simp only: c)
  with h g show ?thesis by blast
qed

definition audio_two :: groups where
  "audio_two = [(Some ''30s'', [[''a_30s.wav'']]), (Some ''45s'', [[''b_45s.wav'']])]"

definition video_two :: groups where
  "video_two = [(Some ''30s'', [[''EN'', ''v1_30s.mp4'']]), (Some ''60s'', [[''EN'', ''v2_60s.mp4'']])]"

theorem merge_pairs_strict_witness:
  "2 \<le> length (filter (\<lambda>k. k \<noteq> None) (map fst audio_two)) \<and>
   merge_pairs audio_two video_two = Some [([''EN'', ''v1_30s.mp4''], [''a_30s.wav''])]"
proof -
  have h: "2 \<le> length (filter (\<lambda>k. k \<noteq> None) (map fst audio_two))"
    by (simp add: audio_two_def)
  then have h': "2 \<le> length (filter (\<lambda>k. k \<noteq> None) (map fst audio_two)) \<or>
     (filter (\<lambda>k. k \<noteq> None) (map fst audio_two) \<noteq> [] \<and> None \<in> set (map fst audio_two))"
    by (rule disjI1)
  have c: "concat (map (\<lambda>k. cross (group_of audio_two k) (group_of video_two k))
             (filter (\<lambda>k. k \<noteq> None) (map fst audio_two))) =
      [([''EN'', ''v1_30s.mp4''], [''a_30s.wav''])]"
    by (simp add: audio_two_def video_two_def cross_def group_of_def)
  from merge_pairs_strict [OF h', of video_two]
  have "merge_pairs audio_two video_two = Some [([''EN'', ''v1_30s.mp4''], [''a_30s.wav''])]"
    by (simp only: c)
  with h show ?thesis by blast
qed

section \<open>Properties of the safe replace and backup manager\<close>

lemma path_shape:
  obtains "v = []" | n where "v = [n]" | Q m n where "v = Q @ [m, n]"
proof (cases v rule: rev_cases)
  case Nil
  then show ?thesis using that(1) by simp
next
  case (snoc P n)
  show ?thesis
  proof (cases P rule: rev_cases)
    case Nil
    with snoc show ?thesis using that(2) by simp
  next
    case (snoc Q m)
    with \<open>v = P @ [n]\<close> show ?thesis using that(3) by simp
  qed
qed

lemma backup_path_shapes:
  "backup_path [] = [''backup'']"
  "backup_path [n] = (if n = [] then [''backup''] else [''backup'', n])"
  "backup_path (Q @ [m, n]) =
     (if m = [] then (if n = [] then Q @ [''backup''] else Q @ [''backup'', n])
      else (if n = [] then Q @ [''backup'', m] else Q @ [''backup'', m, n]))"
  by (simp_all add: backup_path_def create_backup_folder_def path_parent_def path_name_def
      joinp_def butlast_append)

lemma temp_path_shapes:
  "temp_path e [] = [''tmp'' @ temp_random e @ ''.mp4'']"
  "temp_path e [n] = [''tmp'' @ temp_random e @ ''.mp4'']"
  "temp_path e (Q @ [m, n]) = Q @ [m, ''tmp'' @ temp_random e @ ''.mp4'']"
  by (simp_all add: temp_path_def path_parent_def joinp_def butlast_append)

lemma temp_not_backup: "temp_path e v \<noteq> backup_path v"
  by (cases v rule: path_shape) (auto simp: backup_path_shapes temp_path_shapes)

lemma video_not_backup: "v \<noteq> backup_path v"
  by (cases v rule: path_shape) (auto simp: backup_path_shapes)



lemmas merge_defs = merge_audio_video_def Let_def cleanup_def commit_def unlink_def shutil_move_def
  exists_path_def

lemma merge_keeps_backup:
  assumes "fs (backup_path v) = Some b"
  shows "snd (merge_audio_video e v a fs) (backup_path v) = Some b"
  using assms temp_not_backup [of e v] video_not_backup [of v]
  by (auto simp: merge_defs split: option.splits move_fault.splits)

lemma merge_in_place:
  assumes "fs (backup_path v) = Some b" "fst (merge_audio_video e v a fs) = Returned True"
  shows "snd (merge_audio_video e v a fs) v = encoded e \<and> encoded e \<noteq> None"
  using assms temp_not_backup [of e v] video_not_backup [of v]
  by (auto simp: merge_defs split: option.splits if_splits move_fault.splits)

lemma merge_first_backup:
  assumes "fs (backup_path v) = None" "fst (merge_audio_video e v a fs) = Returned True"
  shows "snd (merge_audio_video e v a fs) (backup_path v) = fs v \<and> fs v \<noteq> None \<and>
         snd (merge_audio_video e v a fs) v = encoded e"
  using assms temp_not_backup [of e v] video_not_backup [of v]
  by (auto simp: merge_defs split: option.splits if_splits move_fault.splits)

lemma merge_failed_backup:
  assumes "fs (backup_path v) = None" "fst (merge_audio_video e v a fs) \<noteq> Returned True"
    "temp_path e v \<noteq> v"
    "all_or_nothing (move_faults e MoveToBackup)" "all_or_nothing (move_faults e MoveTemp)"
  shows "snd (merge_audio_video e v a fs) (backup_path v) = None \<or>
         (snd (merge_audio_video e v a fs) (backup_path v) \<noteq> None \<and>
          snd (merge_audio_video e v a fs) v = None)"
  using assms temp_not_backup [of e v] video_not_backup [of v]
  by (auto simp: merge_defs split: option.splits if_splits move_fault.splits)

lemma merge_video_gone:
  assumes "fs (backup_path v) \<noteq> None" "fs v = None"
  shows "fst (merge_audio_video e v a fs) \<noteq> Returned True"
    and "temp_path e v \<noteq> v \<Longrightarrow> snd (merge_audio_video e v a fs) v = None"
  using assms temp_not_backup [of e v] video_not_backup [of v]
  by (auto simp: merge_defs split: option.splits if_splits move_fault.splits)


lemma merge_repeatedly_keeps_backup:
  "fs (backup_path v) = Some b \<Longrightarrow> merge_repeatedly calls v fs (backup_path v) = Some b"
proof (induction calls arbitrary: fs)
  case Nil
  then show ?case by simp
next
  case (Cons call calls)
  obtain e a where call: "call = (e, a)" by (cases call)
  from Cons.prems have "snd (merge_audio_video e v a fs) (backup_path v) = Some b"
    by (rule merge_keeps_backup)
  then show ?case unfolding call by (simp add: Cons.IH)
qed

lemma never_replaced_again:
  "fs (backup_path v) \<noteq> None \<Longrightarrow> fs v = None \<Longrightarrow> failures_clean calls v fs \<Longrightarrow>
   first_replaced calls v fs = None"
proof (induction calls arbitrary: fs)
  case Nil
  then show ?case by simp
next
  case (Cons call calls)
  obtain e a where call: "call = (e, a)" by (cases call)
  have failed: "fst (merge_audio_video e v a fs) \<noteq> Returned True"
    using Cons.prems(1,2) by (rule merge_video_gone(1))
  with Cons.prems(3) have t: "temp_path e v \<noteq> v"
    and rest: "failures_clean calls v (snd (merge_audio_video e v a fs))"
    by (simp_all add: call)
  have gone: "snd (merge_audio_video e v a fs) v = None"
    using Cons.prems(1,2) t by (rule merge_video_gone(2))
  from Cons.prems(1) obtain b where b: "fs (backup_path v) = Some b" by blast
  have "snd (merge_audio_video e v a fs) (backup_path v) \<noteq> None"
    using merge_keeps_backup [of fs v b e a] b by simp
  from Cons.IH [OF this gone rest] failed show ?case by (simp add: call)
qed

lemma backup_is_first_original:
  "fs (backup_path v) = None \<Longrightarrow> failures_clean calls v fs \<Longrightarrow>
   first_replaced calls v fs = Some c \<Longrightarrow> merge_repeatedly calls v fs (backup_path v) = Some c"
proof (induction calls arbitrary: fs)
  case Nil
  then show ?case by simp
next
  case (Cons call calls)
  obtain e a where call: "call = (e, a)" by (cases call)
  let ?fs1 = "snd (merge_audio_video e v a fs)"
  show ?case
  proof (cases "fst (merge_audio_video e v a fs) = Returned True")
    case True
    with Cons.prems(3) have c: "fs v = Some c" by (simp add: call)
    from merge_first_backup [OF Cons.prems(1) True] c have "?fs1 (backup_path v) = Some c" by simp
    then have "merge_repeatedly calls v ?fs1 (backup_path v) = Some c"
      by (rule merge_repeatedly_keeps_backup)
    then show ?thesis by (simp add: call)
  next
    case False
    with Cons.prems(2) have t: "temp_path e v \<noteq> v"
      and clean: "all_or_nothing (move_faults e MoveToBackup)"
        "all_or_nothing (move_faults e MoveTemp)"
      and rest: "failures_clean calls v ?fs1"
      by (simp_all add: call)
    from False Cons.prems(3) have later: "first_replaced calls v ?fs1 = Some c"
      by (simp add: call)
    from merge_failed_backup [OF Cons.prems(1) False t clean]
    show ?thesis
    proof
      assume "?fs1 (backup_path v) = None"
      from Cons.IH [OF this rest later] show ?thesis by (simp add: call)
    next
      assume "?fs1 (backup_path v) \<noteq> None \<and> ?fs1 v = None"
      then have "first_replaced calls v ?fs1 = None"
        using rest by (intro never_replaced_again) simp_all
      with later show ?thesis by simp
    qed
  qed
qed

text \<open>
  Claim C1, as the code has it. A file at the backup path is never changed by a call, and
  a successful call then replaces the video in place; without a backup, a successful call
  leaves the video's previous content at the backup path. So any number of calls keep an
  existing backup, and from a state without backup the backup path ends up holding the
  content the video had before the first successful call, provided the calls that fail
  before it fail with moves that are all or nothing.
\<close>

theorem merge_audio_video_backup_once:
  "(fs (backup_path v) = Some b \<longrightarrow>
      snd (merge_audio_video e v a fs) (backup_path v) = Some b \<and>
      (fst (merge_audio_video e v a fs) = Returned True \<longrightarrow>
         snd (merge_audio_video e v a fs) v = encoded e \<and> encoded e \<noteq> None)) \<and>
   (fs (backup_path v) = None \<and> fst (merge_audio_video e v a fs) = Returned True \<longrightarrow>
      snd (merge_audio_video e v a fs) (backup_path v) = fs v \<and> fs v \<noteq> None \<and>
      snd (merge_audio_video e v a fs) v = encoded e) \<and>
   (fs (backup_path v) = Some b \<longrightarrow> merge_repeatedly calls v fs (backup_path v) = Some b) \<and>
   (fs (backup_path v) = None \<and> failures_clean calls v fs \<and>
    first_replaced calls v fs = Some c \<longrightarrow>
      merge_repeatedly calls v fs (backup_path v) = Some c)"
  using merge_keeps_backup [of fs v b e a] merge_in_place [of fs v b e a]
    merge_first_backup [of fs v e a] merge_repeatedly_keeps_backup [of fs v b calls]
    backup_is_first_original [of fs v calls c]
  by blast

lemma merge_failure_effects:
  assumes "fst (merge_audio_video e v a fs) = Returned False" "fs (temp_path e v) = None"
  shows "snd (merge_audio_video e v a fs) (temp_path e v) = None"
    "(fs (backup_path v) \<noteq> None \<longrightarrow>
        snd (merge_audio_video e v a fs) (backup_path v) = fs (backup_path v))"
    "(snd (merge_audio_video e v a fs) v = fs v \<or>
      (move_faults e MoveTemp \<noteq> Completes \<and> encoded e \<noteq> None \<and>
       (snd (merge_audio_video e v a fs) v = None \<or>
        (\<exists>n. move_faults e MoveTemp = FailsAfterCopying n \<and>
           snd (merge_audio_video e v a fs) v = map_option (take n) (encoded e)))))"
  using assms temp_not_backup [of e v] video_not_backup [of v]
  by (auto simp: merge_defs split: option.splits if_splits move_fault.splits)

text \<open>
  Claim C2, as the code has it. A call that returns \<^verbatim>\<open>False\<close>, with a fresh temporary
  name: no temporary file remains; an existing backup is unchanged; and the video is
  unchanged unless the final move of the temporary file fails, which leaves the video
  path without a file or with the part of the new content that was copied.
\<close>

theorem merge_audio_video_failure:
  assumes "fst (merge_audio_video e v a fs) = Returned False" "fs (temp_path e v) = None"
  shows "snd (merge_audio_video e v a fs) (temp_path e v) = None \<and>
         (fs (backup_path v) \<noteq> None \<longrightarrow>
            snd (merge_audio_video e v a fs) (backup_path v) = fs (backup_path v)) \<and>
         (snd (merge_audio_video e v a fs) v = fs v \<or>
          (move_faults e MoveTemp \<noteq> Completes \<and> encoded e \<noteq> None \<and>
           (snd (merge_audio_video e v a fs) v = None \<or>
            (\<exists>n. move_faults e MoveTemp = FailsAfterCopying n \<and>
               snd (merge_audio_video e v a fs) v = map_option (take n) (encoded e)))))"
  using merge_failure_effects [OF assms] by blast


definition no_faults :: "io_step \<Rightarrow> bool" where
  "no_faults s = False"

definition moves_complete :: "move_step \<Rightarrow> move_fault" where
  "moves_complete s = Completes"

definition video_ex :: path where
  "video_ex = [''EN'', ''clip_30s_en_1080x1920.mp4'']"

definition audio_ex :: path where
  "audio_ex = [''voice_30s.wav'']"

definition fs_fresh :: filesystem where
  "fs_fresh = [video_ex \<mapsto> ''original'', audio_ex \<mapsto> ''audio'']"

definition fs_backed :: filesystem where
  "fs_backed = [video_ex \<mapsto> ''second'', audio_ex \<mapsto> ''audio'',
                [''backup'', ''EN'', ''clip_30s_en_1080x1920.mp4''] \<mapsto> ''original'']"

definition env_second :: call_env where
  "env_second = \<lparr>temp_random = ''k3x9q0ab'', encoded = Some ''second'', io_fails = no_faults,
                   move_faults = moves_complete\<rparr>"

definition env_third :: call_env where
  "env_third = \<lparr>temp_random = ''zz81m_4c'', encoded = Some ''third'', io_fails = no_faults,
                  move_faults = moves_complete\<rparr>"

definition env_encoder_fails :: call_env where
  "env_encoder_fails = \<lparr>temp_random = ''k3x9q0ab'', encoded = None, io_fails = no_faults,
                          move_faults = moves_complete\<rparr>"

definition env_move_fails :: call_env where
  "env_move_fails =
     \<lparr>temp_random = ''k3x9q0ab'', encoded = Some ''third'', io_fails = no_faults,
      move_faults = (\<lambda>s. if s = MoveTemp then FailsUntouched else Completes)\<rparr>"

definition env_backup_cut_short :: call_env where
  "env_backup_cut_short =
     \<lparr>temp_random = ''k3x9q0ab'', encoded = Some ''second'', io_fails = no_faults,
      move_faults = (\<lambda>s. if s = MoveToBackup then FailsAfterCopying 3 else Completes)\<rparr>"

definition env_replace_cut_short :: call_env where
  "env_replace_cut_short =
     \<lparr>temp_random = ''k3x9q0ab'', encoded = Some ''second'', io_fails = no_faults,
      move_faults = (\<lambda>s. if s = MoveTemp then FailsAfterCopying 2 else Completes)\<rparr>"

lemmas example_defs = video_ex_def audio_ex_def fs_fresh_def fs_backed_def env_second_def
  env_third_def env_encoder_fails_def env_move_fails_def env_backup_cut_short_def
  env_replace_cut_short_def no_faults_def
  moves_complete_def backup_path_def create_backup_folder_def temp_path_def path_parent_def
  path_name_def joinp_def

theorem merge_audio_video_backup_once_witness:
  "fs_backed (backup_path video_ex) = Some ''original'' \<and>
   fst (merge_audio_video env_third video_ex audio_ex fs_backed) = Returned True \<and>
   snd (merge_audio_video env_third video_ex audio_ex fs_backed) (backup_path video_ex)
     = Some ''original'' \<and>
   snd (merge_audio_video env_third video_ex audio_ex fs_backed) video_ex = Some ''third'' \<and>
   fs_fresh (backup_path video_ex) = None \<and>
   fst (merge_audio_video env_second video_ex audio_ex fs_fresh) = Returned True \<and>
   snd (merge_audio_video env_second video_ex audio_ex fs_fresh) (backup_path video_ex)
     = Some ''original'' \<and>
   failures_clean
     [(env_encoder_fails, audio_ex), (env_second, audio_ex), (env_third, audio_ex)]
     video_ex fs_fresh \<and>
   first_replaced
     [(env_encoder_fails, audio_ex), (env_second, audio_ex), (env_third, audio_ex)]
     video_ex fs_fresh = Some ''original'' \<and>
   merge_repeatedly
     [(env_encoder_fails, audio_ex), (env_second, audio_ex), (env_third, audio_ex)]
     video_ex fs_fresh (backup_path video_ex) = Some ''original''"
proof -
  let ?calls = "[(env_encoder_fails, audio_ex), (env_second, audio_ex), (env_third, audio_ex)]"
  have b: "fs_backed (backup_path video_ex) = Some ''original''"
    and n: "fs_fresh (backup_path video_ex) = None"
    and o: "fs_fresh video_ex = Some ''original''"
    by (simp_all add: example_defs)
  have r3: "fst (merge_audio_video env_third video_ex audio_ex fs_backed) = Returned True"
    and r2: "fst (merge_audio_video env_second video_ex audio_ex fs_fresh) = Returned True"
    by (simp_all add: example_defs merge_defs)
  have r1: "fst (merge_audio_video env_encoder_fails video_ex audio_ex fs_fresh) = Returned False"
    and s1: "snd (merge_audio_video env_encoder_fails video_ex audio_ex fs_fresh) = fs_fresh"
    by (auto simp: example_defs merge_defs)
  have t: "temp_path env_encoder_fails video_ex \<noteq> video_ex"
    and a: "all_or_nothing (move_faults env_encoder_fails MoveToBackup)"
      "all_or_nothing (move_faults env_encoder_fails MoveTemp)"
    by (simp_all add: example_defs)
  have cl: "failures_clean ?calls video_ex fs_fresh"
    using r1 s1 r2 t a by simp
  have f: "first_replaced ?calls video_ex fs_fresh = Some ''original''"
    using r1 s1 r2 o by simp
  note thm1 = merge_audio_video_backup_once
    [of fs_backed video_ex "''original''" env_third audio_ex ?calls "''original''"]
  note thm2 = merge_audio_video_backup_once
    [of fs_fresh video_ex "''original''" env_second audio_ex ?calls "''original''"]
  from thm1 b r3
  have k: "snd (merge_audio_video env_third video_ex audio_ex fs_backed) (backup_path video_ex)
      = Some ''original''"
    and i: "snd (merge_audio_video env_third video_ex audio_ex fs_backed) video_ex
      = encoded env_third"
    by blast+
  from thm2 n r2 o
  have m: "snd (merge_audio_video env_second video_ex audio_ex fs_fresh) (backup_path video_ex)
      = Some ''original''"
    by simp
  from thm2 n cl f
  have d: "merge_repeatedly ?calls video_ex fs_fresh (backup_path video_ex) = Some ''original''"
    by blast
  have "encoded env_third = Some ''third''" by (simp add: env_third_def)
  with b r3 k i n r2 m cl f d show ?thesis by simp
qed

text \<open>
  Claim C1 as stated fails. The move of the video to the backup path fails after three
  bytes were copied; the call returns \<^verbatim>\<open>False\<close> with the video in place. The next call
  finds a file at the backup path, replaces the video and returns \<^verbatim>\<open>True\<close>: the backup
  is not the content the video had before this first successful replacement. Likewise
  when the final move of a call fails after two bytes were copied to the video path: the
  backup holds the original, and the first successful replacement replaces those two
  bytes.
\<close>

theorem merge_audio_video_backup_cut_short:
  "fs_fresh (backup_path video_ex) = None \<and>
   fst (merge_audio_video env_backup_cut_short video_ex audio_ex fs_fresh) = Returned False \<and>
   first_replaced [(env_backup_cut_short, audio_ex), (env_third, audio_ex)] video_ex fs_fresh
     = Some ''original'' \<and>
   merge_repeatedly [(env_backup_cut_short, audio_ex), (env_third, audio_ex)] video_ex fs_fresh
     (backup_path video_ex) = Some ''ori'' \<and>
   fst (merge_audio_video env_replace_cut_short video_ex audio_ex fs_fresh) = Returned False \<and>
   first_replaced [(env_replace_cut_short, audio_ex), (env_third, audio_ex)] video_ex fs_fresh
     = Some ''se'' \<and>
   merge_repeatedly [(env_replace_cut_short, audio_ex), (env_third, audio_ex)] video_ex fs_fresh
     (backup_path video_ex) = Some ''original''"
  by (simp add: example_defs merge_defs)

theorem merge_audio_video_failure_witness:
  "fst (merge_audio_video env_encoder_fails video_ex audio_ex fs_fresh) = Returned False \<and>
   fs_fresh (temp_path env_encoder_fails video_ex) = None \<and>
   snd (merge_audio_video env_encoder_fails video_ex audio_ex fs_fresh)
     (temp_path env_encoder_fails video_ex) = None \<and>
   snd (merge_audio_video env_encoder_fails video_ex audio_ex fs_fresh) video_ex
     = Some ''original''"
proof -
  have r: "fst (merge_audio_video env_encoder_fails video_ex audio_ex fs_fresh) = Returned False"
    by (simp add: example_defs merge_defs)
  have h2: "fs_fresh (temp_path env_encoder_fails video_ex) = None"
    and o: "fs_fresh video_ex = Some ''original''"
    and nf: "move_faults env_encoder_fails MoveTemp = Completes"
    by (simp_all add: example_defs)
  from merge_audio_video_failure [OF r h2] nf o
  have "snd (merge_audio_video env_encoder_fails video_ex audio_ex fs_fresh)
          (temp_path env_encoder_fails video_ex) = None"
    and "snd (merge_audio_video env_encoder_fails video_ex audio_ex fs_fresh) video_ex
          = Some ''original''"
    by simp_all
  with r h2 show ?thesis by blast
qed

text \<open>
  Claim C2 as stated fails: with a backup present the video is deleted before the
  temporary file is moved, so a failure of that move returns \<^verbatim>\<open>False\<close> and leaves
  the video path empty.
\<close>

theorem merge_audio_video_failure_counterexample:
  "fst (merge_audio_video env_move_fails video_ex audio_ex fs_backed) = Returned False \<and>
   fs_backed video_ex = Some ''second'' \<and>
   snd (merge_audio_video env_move_fails video_ex audio_ex fs_backed) video_ex = None"
  by (simp add: example_defs merge_defs)

section \<open>Properties of the video rename mode\<close>

lemma probe_names_total:
  assumes "finite (dom fs)"
  shows "\<exists>p. probe_names fs d b e c = Some p \<and> \<not> exists_path fs p"
proof -
  define P where "P k = (c \<le> k \<and> \<not> exists_path fs (joinp d (numbered_name b e k)))" for k
  from free_number_exists [OF assms, of c d b e] have "\<exists>k. P k" unfolding P_def by blast
  then have least: "P (LEAST k. P k)" and below: "\<And>j. j < (LEAST k. P k) \<Longrightarrow> \<not> P j"
    by (auto intro: LeastI_ex dest: not_less_Least)
  define k where "k = (LEAST k. P k)"
  from least have ck: "c \<le> k" and free: "\<not> exists_path fs (joinp d (numbered_name b e k))"
    by (simp_all add: k_def P_def)
  from below have taken: "\<And>j. c \<le> j \<Longrightarrow> j < k \<Longrightarrow> exists_path fs (joinp d (numbered_name b e j))"
    unfolding k_def P_def by blast
  have "probe_names fs d b e c = Some (joinp d (numbered_name b e k))"
    by (rule probe_names_finds [OF free ck taken])
  with free show ?thesis by blast
qed

lemma handle_duplicate_names_total:
  assumes "finite (dom fs)"
  shows "\<exists>p. handle_duplicate_names fs t = Some p \<and> fs p = None"
proof (cases "exists_path fs t")
  case True
  with probe_names_total [OF assms] show ?thesis
    by (simp add: handle_duplicate_names_def exists_path_def)
next
  case False
  then show ?thesis by (simp add: handle_duplicate_names_def exists_path_def)
qed

lemma move_file_frame:
  assumes "move_file fs src dst = Some fs'"
  shows "finite (dom fs) \<Longrightarrow> finite (dom fs')"
    and "w \<noteq> src \<Longrightarrow> w \<noteq> dst \<Longrightarrow> fs' w = fs w"
  using assms by (auto simp: move_file_def split: option.splits)

lemma rename_file_frame:
  assumes "rename_file env step fs src dst = Some fs'"
  shows "finite (dom fs) \<Longrightarrow> finite (dom fs')"
    and "w \<noteq> src \<Longrightarrow> w \<noteq> dst \<Longrightarrow> fs' w = fs w"
  using assms move_file_frame [of fs src dst fs'] by (auto simp: rename_file_def split: if_splits)

lemma rename_file_source:
  "rename_file env step fs src dst = Some fs' \<Longrightarrow> fs src \<noteq> None"
  by (auto simp: rename_file_def move_file_def split: if_splits option.splits)

lemma organize_by_language_frame:
  assumes "finite (dom fs)" "fs w = Some c" "w \<noteq> f"
  shows "organize_by_language env cwd fs f lang = Some (Inl ()) \<or>
         (\<exists>fs'. organize_by_language env cwd fs f lang = Some (Inr fs') \<and>
            finite (dom fs') \<and> fs' w = Some c)"
proof (cases "rename_fails env MakeLanguageFolder f")
  case True
  then show ?thesis by (simp add: organize_by_language_def)
next
  case False
  from handle_duplicate_names_total [OF assms(1)]
  obtain t where t: "handle_duplicate_names fs
      (joinp (create_language_folder cwd lang) (path_name f)) = Some t" "fs t = None"
    by blast
  show ?thesis
  proof (cases "rename_file env MoveToLanguageFolder fs f t")
    case None
    with False t show ?thesis by (simp add: organize_by_language_def)
  next
    case (Some fs')
    from t(2) assms(2) have "w \<noteq> t" by auto
    with rename_file_frame [OF Some] assms have "finite (dom fs')" "fs' w = Some c" by simp_all
    with False t Some show ?thesis by (simp add: organize_by_language_def)
  qed
qed

lemma process_video_frame:
  assumes "finite (dom fs)" "fs w = Some c" "w \<noteq> f"
  shows "\<exists>fs' p' e'. process_video extract env name cwd f (fs, p, e) = Some (fs', p', e') \<and>
           finite (dom fs') \<and> fs' w = Some c \<and> p' + e' = p + e + 1"
proof (cases "get_video_metadata env f")
  case None
  with assms show ?thesis by (simp add: process_video_def)
next
  case (Some meta)
  obtain resolution duration where meta: "meta = (resolution, duration)" by (cases meta)
  define new_filename where
    "new_filename = generate_new_filename name duration (extract (path_name f)) resolution"
  from handle_duplicate_names_total [OF assms(1)]
  obtain np where np: "handle_duplicate_names fs (joinp (path_parent f) new_filename) = Some np"
    "fs np = None" by blast
  show ?thesis
  proof (cases "rename_file env RenameFile fs f np")
    case None
    with Some meta np assms show ?thesis
      by (simp add: process_video_def new_filename_def)
  next
    case renamed: (Some fs1)
    from np(2) assms(2) have "w \<noteq> np" by auto
    with rename_file_frame [OF renamed] assms
    have fs1: "finite (dom fs1)" "fs1 w = Some c" by simp_all
    note wnp = \<open>w \<noteq> np\<close>
    from organize_by_language_frame [OF fs1 wnp, of env cwd "extract (path_name f)"]
    show ?thesis
    proof (elim disjE exE conjE)
      assume "organize_by_language env cwd fs1 np (extract (path_name f)) = Some (Inl ())"
      with Some meta np renamed fs1 show ?thesis
        by (simp add: process_video_def new_filename_def)
    next
      fix fs2
      assume "organize_by_language env cwd fs1 np (extract (path_name f)) = Some (Inr fs2)"
        "finite (dom fs2)" "fs2 w = Some c"
      with Some meta np renamed show ?thesis
        by (simp add: process_video_def new_filename_def)
    qed
  qed
qed

lemma process_all_frame:
  "finite (dom fs) \<Longrightarrow> fs w = Some c \<Longrightarrow> w \<notin> set files \<Longrightarrow>
   \<exists>fs' p' e'. process_all extract env name cwd files (fs, p, e) = Some (fs', p', e') \<and>
      fs' w = Some c \<and> p' + e' = p + e + length files"
proof (induction files arbitrary: fs p e)
  case Nil
  then show ?case by simp
next
  case (Cons f files)
  from Cons.prems have wf: "w \<noteq> f" and rest_out: "w \<notin> set files" by auto
  have "\<exists>fs' p' e'. process_video extract env name cwd f (fs, p, e) = Some (fs', p', e') \<and>
           finite (dom fs') \<and> fs' w = Some c \<and> p' + e' = p + e + 1"
    using Cons.prems(1) Cons.prems(2) wf by (rule process_video_frame)
  then obtain fs1 p1 e1 where
    step: "process_video extract env name cwd f (fs, p, e) = Some (fs1, p1, e1)"
    and inv: "finite (dom fs1)" "fs1 w = Some c" and cnt: "p1 + e1 = p + e + 1"
    by blast
  from Cons.IH [OF inv rest_out, of p1 e1]
  obtain fs' p' e' where
    rest: "process_all extract env name cwd files (fs1, p1, e1) = Some (fs', p', e')"
      "fs' w = Some c" "p' + e' = p1 + e1 + length files"
    by blast
  with step cnt show ?case by simp
qed

lemma process_video_env:
  assumes "clip_info env' f = clip_info env f" "rename_fails env' = rename_fails env"
  shows "process_video extract env' name cwd f st = process_video extract env name cwd f st"
proof -
  have r: "rename_file env' = rename_file env"
    by (intro ext) (simp add: rename_file_def assms(2))
  have o: "organize_by_language env' = organize_by_language env"
    by (intro ext) (simp add: organize_by_language_def assms(2) r cong: option.case_cong)
  have m: "get_video_metadata env' f = get_video_metadata env f"
    by (simp add: get_video_metadata_def assms(1))
  show ?thesis unfolding process_video_def r o m ..
qed

lemma process_all_env:
  assumes "\<forall>f\<in>set files. clip_info env' f = clip_info env f" "rename_fails env' = rename_fails env"
  shows "process_all extract env' name cwd files st = process_all extract env name cwd files st"
  using assms(1)
proof (induction files arbitrary: st)
  case Nil
  then show ?case by simp
next
  case (Cons f files)
  then show ?case by (simp add: process_video_env [OF _ assms(2)] cong: option.case_cong)
qed

text \<open>
  Claim C10. On a file system with finitely many files the run returns, and a file whose
  name contains \<^verbatim>\<open>wip\<close> in any letter case keeps its path and content. Every file
  that is not skipped is counted once, as processed or as an error, so a skipped file is
  counted as neither; and the run is the same whatever the metadata reader would find for
  the skipped file. This holds for the language extractor of either source file.
\<close>

theorem video_rename_mode_skips_wip:
  assumes "finite (dom fs)" "is_wip (path_name w)" "fs w = Some c"
  shows "\<exists>fs' p e.
           video_rename_mode extract env typed_name cwd mp4_files fs = Some (fs', p, e) \<and>
           fs' w = Some c \<and>
           (py_strip typed_name \<noteq> [] \<longrightarrow>
              p + e = length (filter (\<lambda>f. \<not> is_wip (path_name f)) mp4_files)) \<and>
           video_rename_mode extract (env\<lparr>clip_info := (clip_info env)(w := info)\<rparr>)
             typed_name cwd mp4_files fs = Some (fs', p, e)"
proof (cases "py_strip typed_name = [] \<or> mp4_files = []")
  case True
  then have "video_rename_mode extract env' typed_name cwd mp4_files fs = Some (fs, 0, 0)" for env'
    by (auto simp: video_rename_mode_def Let_def)
  with True assms(3) show ?thesis by auto
next
  case False
  define filtered where "filtered = filter (\<lambda>f. \<not> is_wip (path_name f)) mp4_files"
  have out: "w \<notin> set filtered" using assms(2) by (simp add: filtered_def)
  have mode: "video_rename_mode extract env' typed_name cwd mp4_files fs
      = process_all extract env' (py_strip typed_name) cwd filtered (fs, 0, 0)" for env'
    using False by (simp add: video_rename_mode_def filtered_def Let_def)
  from process_all_frame [OF assms(1,3) out, of "extract" env "py_strip typed_name" cwd 0 0]
  obtain fs' p e where
    run: "process_all extract env (py_strip typed_name) cwd filtered (fs, 0, 0) = Some (fs', p, e)"
    and frame: "fs' w = Some c" and count: "p + e = length filtered"
    by auto
  have "process_all extract (env\<lparr>clip_info := (clip_info env)(w := info)\<rparr>)
          (py_strip typed_name) cwd filtered (fs, 0, 0)
        = process_all extract env (py_strip typed_name) cwd filtered (fs, 0, 0)"
    using out by (intro process_all_env) auto
  with run frame count show ?thesis
    unfolding mode filtered_def by simp
qed


definition clips_rename :: "path \<Rightarrow> (int \<times> int \<times> int) option" where
  "clips_rename p =
     (if p = [''fr_clip.mp4''] \<or> p = [''draft_WiP.mp4''] then Some (1080, 1920, 30) else None)"

definition env_rename :: rename_env where
  "env_rename = \<lparr>clip_info = clips_rename, rename_fails = (\<lambda>step p. False)\<rparr>"

definition listing_rename :: "path list" where
  "listing_rename = [[''fr_clip.mp4''], [''draft_WiP.mp4''], [''broken.mp4'']]"

definition fs_rename :: filesystem where
  "fs_rename = [[''fr_clip.mp4''] \<mapsto> ''A'', [''draft_WiP.mp4''] \<mapsto> ''B'',
                [''broken.mp4''] \<mapsto> ''C'']"

theorem video_rename_mode_skips_wip_witness:
  "finite (dom fs_rename) \<and> is_wip (path_name [''draft_WiP.mp4'']) \<and>
   fs_rename [''draft_WiP.mp4''] = Some ''B'' \<and>
   (\<exists>fs' p e.
      video_rename_mode extract_language_prefix env_rename '' promo '' [] listing_rename fs_rename
        = Some (fs', p, e) \<and>
      fs' [''draft_WiP.mp4''] = Some ''B'' \<and> p + e = 2) \<and>
   map_option (\<lambda>(fs', p, e). (p, e, fs' [''FR'', ''promo_30s_fr_1080x1920.mp4'']))
     (video_rename_mode extract_language_prefix env_rename '' promo '' [] listing_rename fs_rename)
     = Some (1, 1, Some ''A'')"
proof -
  have fin: "finite (dom fs_rename)" by (simp add: fs_rename_def)
  have wip: "is_wip (path_name [''draft_WiP.mp4''])" by code_simp
  have b: "fs_rename [''draft_WiP.mp4''] = Some ''B''" by (simp add: fs_rename_def)
  have name: "py_strip '' promo '' \<noteq> []" by code_simp
  have count: "length (filter (\<lambda>f. \<not> is_wip (path_name f)) listing_rename) = 2" by code_simp
  from video_rename_mode_skips_wip [OF fin wip b, of extract_language_prefix env_rename
      "'' promo ''" "[]" listing_rename None] name count
  have run: "\<exists>fs' p e.
      video_rename_mode extract_language_prefix env_rename '' promo '' [] listing_rename fs_rename
        = Some (fs', p, e) \<and>
      fs' [''draft_WiP.mp4''] = Some ''B'' \<and> p + e = 2"
    by auto
  have val: "map_option (\<lambda>(fs', p, e). (p, e, fs' [''FR'', ''promo_30s_fr_1080x1920.mp4'']))
     (video_rename_mode extract_language_prefix env_rename '' promo '' [] listing_rename fs_rename)
     = Some (1, 1, Some ''A'')"
    by code_simp
  from fin wip b run val show ?thesis by blast
qed

end
